theory Spec2Isabelle
  imports Complex_Main "HOL-Library.Word" "HOL-Library.Signed_Division" "HOL-Library.Multiset"
begin

unbundle bit_operations_syntax

section \<open>The panel stack controller of UI.cpp\<close>

subsection \<open>Panels, events and calls\<close>

text \<open>
  A panel is known to the controller by its address only. \<open>0\<close> is the null pointer, and
  also the empty \<open>shared_ptr\<close>: \<open>it->get()\<close> of a handle is the handle's address.
\<close>

type_synonym ptr = nat

text \<open>
  \<open>Command\<close> comes from Command.h, which is not part of the sources: a command is kept
  as the constructor argument it was built from (a key code, an injected event's payload,
  a gesture).
\<close>

datatype command = KeyCommand int | EventCommand nat | GestureCommand nat

text \<open>
  The part of \<open>SDL_Event\<close> that \<open>UI::Handle\<close> reads, one constructor per value of
  \<open>event.type\<close> the function tests, in the order of its tests, and \<open>SDL_OTHER\<close> for every
  other type. The fields are those the branch reads. \<open>float\<close> and \<open>double\<close> values are
  taken as real numbers: rounding is not part of the model, and no theorem below depends
  on a coordinate.
\<close>

datatype event =
    SDL_MOUSEMOTION "32 word" int int int int
      \<comment> \<open>\<open>motion.state\<close>, \<open>motion.x\<close>, \<open>motion.y\<close>, \<open>motion.xrel\<close>, \<open>motion.yrel\<close>\<close>
  | SDL_MOUSEBUTTONDOWN "8 word" int int "8 word"
      \<comment> \<open>\<open>button.button\<close>, \<open>button.x\<close>, \<open>button.y\<close>, \<open>button.clicks\<close>\<close>
  | SDL_MOUSEBUTTONUP int int
      \<comment> \<open>\<open>button.x\<close>, \<open>button.y\<close>\<close>
  | SDL_MOUSEWHEEL int int
      \<comment> \<open>\<open>wheel.x\<close>, \<open>wheel.y\<close>\<close>
  | SDL_FINGERDOWN real real int
      \<comment> \<open>\<open>tfinger.x\<close>, \<open>tfinger.y\<close>, \<open>tfinger.fingerId\<close>\<close>
  | SDL_FINGERMOTION real real real real int
      \<comment> \<open>\<open>tfinger.x\<close>, \<open>tfinger.y\<close>, \<open>tfinger.dx\<close>, \<open>tfinger.dy\<close>, \<open>tfinger.fingerId\<close>\<close>
  | SDL_FINGERUP real real int
      \<comment> \<open>\<open>tfinger.x\<close>, \<open>tfinger.y\<close>, \<open>tfinger.fingerId\<close>\<close>
  | SDL_KEYDOWN int int bool
      \<comment> \<open>\<open>key.keysym.sym\<close>, \<open>key.keysym.mod\<close>, \<open>key.repeat\<close> is not zero\<close>
  | Command_Event bool nat
      \<comment> \<open>type \<open>Command::EventID()\<close>: \<open>button.state == SDL_PRESSED\<close>, and the payload\<close>
  | Gesture_Event nat
      \<comment> \<open>type \<open>Gesture::EventID()\<close>: \<open>user.code\<close>\<close>
  | SDL_OTHER

text \<open>The member functions of \<open>Panel\<close> that the controller calls, with their arguments.\<close>

datatype call =
    Drag real real
  | Hover int int
  | ZoneMouseDown int int
  | Click int int int
  | RClick int int
  | ZoneMouseUp int int
  | Release int int
  | Scroll int int
  | FingerDown int int int
  | FingerMove int int int
  | FingerUp int int int
  | KeyDown int int command bool
  | Gesture nat
  | TrapAllEvents
  | Step
  | Draw
  | ClearZones
  | IsFullScreen

text \<open>
  What a panel may ask of the controller from inside one of its member functions: the
  three mutation requests.
\<close>

datatype request = ReqPush ptr | ReqPop ptr | ReqPopThrough ptr

text \<open>
  One call of a panel's member function, as a record of the run: the panel, the call,
  the value it returned (for a \<open>void\<close> function the value is not used), and the
  controller's stack as it was when the call was made.
\<close>

datatype invocation = Invocation (target: ptr) (called: call) (returned: bool) (seen: "ptr list")

datatype error = NullDereference

subsection \<open>The controller\<close>

text \<open>
  The data members of \<open>UI\<close>. Their declarations are in UI.h, which is not part of the
  sources: \<open>stack\<close> and \<open>toPush\<close> hold shared handles, \<open>toPop\<close> raw pointers; \<open>lastTap\<close>
  is taken as the 32-bit unsigned value that \<open>SDL_GetTicks\<close> returns, and the two finger
  identifiers as integers wide enough for any \<open>SDL_FingerID\<close>, \<open>-1\<close> meaning none.
  The last three fields are not in the program: \<open>trace\<close> lists the calls made on panels
  so far, \<open>wired\<close> the panels on which \<open>SetUI(this)\<close> was called, \<open>injected\<close> the commands
  given to \<open>Command::InjectOnce\<close>.
\<close>

record UI =
  stack :: "ptr list"
  toPush :: "ptr list"
  toPop :: "ptr list"
  isDone :: bool
  canSave :: bool
  lastTap :: "32 word"
  zoneFingerId :: int
  panelFingerId :: int
  trace :: "invocation list"
  wired :: "ptr list"
  injected :: "command list"

text \<open>
  What surrounds the controller. \<open>respond\<close> is the behaviour of the panels: what a call
  returns and which requests the panel makes during it, given the controller as it is at
  the call (the record holds the whole history, so a panel may answer differently each
  time). \<open>SDL_GetTicks\<close> is the clock, read in a given state. The other fields are the
  values of \<open>Screen::Zoom()\<close>, \<open>Screen::Left()\<close>, \<open>Screen::Top()\<close>, \<open>Screen::Width()\<close> and
  \<open>Screen::Height()\<close>.
\<close>

record env =
  respond :: "UI \<Rightarrow> ptr \<Rightarrow> call \<Rightarrow> bool \<times> request list"
  SDL_GetTicks :: "UI \<Rightarrow> 32 word"
  ScreenZoom :: int
  ScreenLeft :: int
  ScreenTop :: int
  ScreenWidth :: int
  ScreenHeight :: int

subsection \<open>Mutation requests\<close>

text \<open>
  \<open>UI::Push\<close>: \<open>panel->SetUI(this)\<close>, then \<open>toPush.push_back(panel)\<close>. The call through
  an empty handle is the error.
\<close>

definition Push :: "ptr \<Rightarrow> UI \<Rightarrow> error + UI" where
  "Push panel s =
     (if panel = 0 then Inl NullDereference
      else Inr (s\<lparr>wired := wired s @ [panel], toPush := toPush s @ [panel]\<rparr>))"

definition Pop :: "ptr \<Rightarrow> UI \<Rightarrow> UI" where
  "Pop panel s = s\<lparr>toPop := toPop s @ [panel]\<rparr>"

text \<open>
  The loop of \<open>UI::PopThrough\<close> over \<open>stack.rbegin()\<close> to \<open>stack.rend()\<close>: the first
  argument is the panel, the second what is left of the reversed stack, the third the
  queue.
\<close>

fun PopThrough_loop :: "ptr \<Rightarrow> ptr list \<Rightarrow> ptr list \<Rightarrow> ptr list" where
  "PopThrough_loop panel [] q = q"
| "PopThrough_loop panel (x # xs) q =
     (if x = panel then q @ [x] else PopThrough_loop panel xs (q @ [x]))"

definition PopThrough :: "ptr \<Rightarrow> UI \<Rightarrow> UI" where
  "PopThrough panel s = s\<lparr>toPop := PopThrough_loop panel (rev (stack s)) (toPop s)\<rparr>"

text \<open>
  The inner loop of \<open>UI::PushOrPop\<close>, from \<open>stack.begin()\<close> to \<open>stack.end()\<close>: erase at
  the first match and leave the loop.
\<close>

fun erase_first :: "ptr \<Rightarrow> ptr list \<Rightarrow> ptr list" where
  "erase_first panel [] = []"
| "erase_first panel (x # xs) = (if x = panel then xs else x # erase_first panel xs)"

definition PushOrPop :: "UI \<Rightarrow> UI" where
  "PushOrPop s =
     s\<lparr>stack := fold erase_first (toPop s) (stack s @ filter (\<lambda>panel. panel \<noteq> 0) (toPush s)),
       toPush := [], toPop := []\<rparr>"

subsection \<open>Queries and the flags\<close>

definition Reset :: "UI \<Rightarrow> UI" where
  "Reset s = s\<lparr>stack := [], toPush := [], toPop := [], isDone := False\<rparr>"

definition Quit :: "UI \<Rightarrow> UI" where
  "Quit s = s\<lparr>isDone := True\<rparr>"

definition IsDone :: "UI \<Rightarrow> bool" where
  "IsDone s = isDone s"

definition IsEmpty :: "UI \<Rightarrow> bool" where
  "IsEmpty s = (stack s = [] \<and> toPush s = [])"

subsection \<open>Calling a panel\<close>

fun apply_request :: "request \<Rightarrow> UI \<Rightarrow> error + UI" where
  "apply_request (ReqPush panel) s = Push panel s"
| "apply_request (ReqPop panel) s = Inr (Pop panel s)"
| "apply_request (ReqPopThrough panel) s = Inr (PopThrough panel s)"

fun apply_requests :: "request list \<Rightarrow> UI \<Rightarrow> error + UI" where
  "apply_requests [] s = Inr s"
| "apply_requests (r # rs) s =
     (case apply_request r s of Inl e \<Rightarrow> Inl e | Inr s' \<Rightarrow> apply_requests rs s')"

text \<open>
  \<open>(*it)->f(...)\<close>: the call is recorded, then the requests the panel makes during the
  call reach the controller in order. A call through a null handle is the error.
\<close>

definition invoke :: "env \<Rightarrow> ptr \<Rightarrow> call \<Rightarrow> UI \<Rightarrow> error + (bool \<times> UI)" where
  "invoke env p c s =
     (if p = 0 then Inl NullDereference
      else case respond env s p c of (r, reqs) \<Rightarrow>
        (case apply_requests reqs (s\<lparr>trace := trace s @ [Invocation p c r (stack s)]\<rparr>) of
           Inl e \<Rightarrow> Inl e
         | Inr s' \<Rightarrow> Inr (r, s')))"

definition and_then :: "error + 'a \<Rightarrow> ('a \<Rightarrow> error + 'b) \<Rightarrow> error + 'b" where
  "and_then m f = (case m of Inl e \<Rightarrow> Inl e | Inr x \<Rightarrow> f x)"

text \<open>Conversion of a floating-point value to \<open>int\<close>: towards zero.\<close>

definition trunc :: "real \<Rightarrow> int" where
  "trunc r = (if 0 \<le> r then \<lfloor>r\<rfloor> else \<lceil>r\<rceil>)"

subsection \<open>Event dispatch\<close>

text \<open>
  The body of the loop of \<open>UI::Handle\<close> from the test of \<open>event.type\<close> to the end of
  the chain of \<open>else if\<close>, for the panel \<open>p\<close> that \<open>it\<close> points to. \<open>handled\<close> is false
  when the body is entered (the loop's condition), and the result is its value after.
\<close>

fun deliver :: "env \<Rightarrow> event \<Rightarrow> ptr \<Rightarrow> UI \<Rightarrow> error + (bool \<times> UI)" where
  "deliver env (SDL_MOUSEMOTION state x y xrel yrel) p s =
     (if state AND 1 \<noteq> 0
      then invoke env p (Drag (real_of_int xrel * 100 / real_of_int (ScreenZoom env))
                              (real_of_int yrel * 100 / real_of_int (ScreenZoom env))) s
      else invoke env p (Hover (ScreenLeft env + (x * 100) sdiv ScreenZoom env)
                               (ScreenTop env + (y * 100) sdiv ScreenZoom env)) s)"
| "deliver env (SDL_MOUSEBUTTONDOWN button px py clicks) p s =
     (let x = ScreenLeft env + (px * 100) sdiv ScreenZoom env;
          y = ScreenTop env + (py * 100) sdiv ScreenZoom env
      in if button = 1
         then and_then (invoke env p (ZoneMouseDown x y) s) (\<lambda>(handled, s1).
                if \<not> handled then invoke env p (Click x y (uint clicks)) s1
                else Inr (handled, s1))
         else if button = 3 then invoke env p (RClick x y) s
         else Inr (False, s))"
| "deliver env (SDL_MOUSEBUTTONUP px py) p s =
     (let x = ScreenLeft env + (px * 100) sdiv ScreenZoom env;
          y = ScreenTop env + (py * 100) sdiv ScreenZoom env
      in and_then (invoke env p (ZoneMouseUp x y) s) (\<lambda>(handled, s1).
           if \<not> handled then invoke env p (Release x y) s1 else Inr (handled, s1)))"
| "deliver env (SDL_MOUSEWHEEL wx wy) p s = invoke env p (Scroll wx wy) s"
| "deliver env (SDL_FINGERDOWN fx fy fingerId) p s =
     (let x = trunc ((fx - 1 / 2) * real_of_int (ScreenWidth env));
          y = trunc ((fy - 1 / 2) * real_of_int (ScreenHeight env))
      in and_then (invoke env p (ZoneMouseDown x y) s) (\<lambda>(h1, s1).
         and_then (if h1 then Inr (h1, s1\<lparr>zoneFingerId := fingerId\<rparr>) else Inr (h1, s1))
           (\<lambda>(h2, s2).
         and_then (if \<not> h2
                   then and_then (invoke env p (Hover x y) s2) (\<lambda>(u, s3).
                          invoke env p (FingerDown x y fingerId) s3)
                   else Inr (h2, s2)) (\<lambda>(h3, s3).
         if \<not> h3
         then (let now = SDL_GetTicks env s3
               in and_then (invoke env p (Click x y (if now - lastTap s3 > 500 then 1 else 2)) s3)
                    (\<lambda>(h4, s4).
                      Inr (h4, (if h4 then s4\<lparr>panelFingerId := fingerId\<rparr> else s4)
                                 \<lparr>lastTap := now\<rparr>)))
         else Inr (h3, s3)))))"
| "deliver env (SDL_FINGERMOTION fx fy fdx fdy fingerId) p s =
     (let x = trunc ((fx - 1 / 2) * real_of_int (ScreenWidth env));
          y = trunc ((fy - 1 / 2) * real_of_int (ScreenHeight env));
          dx = trunc (fdx * real_of_int (ScreenWidth env));
          dy = trunc (fdy * real_of_int (ScreenHeight env))
      in and_then (invoke env p (FingerMove x y fingerId) s) (\<lambda>(h1, s1).
           if \<not> h1 \<and> panelFingerId s1 = fingerId
           then invoke env p (Drag (real_of_int dx) (real_of_int dy)) s1
           else Inr (h1, s1)))"
| "deliver env (SDL_FINGERUP fx fy fingerId) p s =
     (let x = trunc ((fx - 1 / 2) * real_of_int (ScreenWidth env));
          y = trunc ((fy - 1 / 2) * real_of_int (ScreenHeight env))
      in and_then (if zoneFingerId s = fingerId
                   then and_then (invoke env p (ZoneMouseUp x y) s) (\<lambda>(h, s1).
                          Inr (h, s1\<lparr>zoneFingerId := - 1\<rparr>))
                   else Inr (False, s)) (\<lambda>(h1, s1).
         and_then (if \<not> h1 then invoke env p (FingerUp x y fingerId) s1 else Inr (h1, s1))
           (\<lambda>(h2, s2).
         if \<not> h2 \<and> panelFingerId s2 = fingerId
         then and_then (invoke env p (Release x y) s2) (\<lambda>(h3, s3).
                Inr (h3, s3\<lparr>panelFingerId := - 1\<rparr>))
         else Inr (h2, s2))))"
| "deliver env (SDL_KEYDOWN key modifier repeat) p s =
     invoke env p (KeyDown key modifier (KeyCommand key) (\<not> repeat)) s"
| "deliver env (Command_Event pressed payload) p s =
     (if pressed then invoke env p (KeyDown 0 0 (EventCommand payload) True) s
      else Inr (False, s))"
| "deliver env (Gesture_Event code) p s =
     and_then (invoke env p (Gesture code) s) (\<lambda>(handled, s1).
       if \<not> handled
       then invoke env p (KeyDown 0 0 (GestureCommand code) True)
              (s1\<lparr>injected := injected s1 @ [GestureCommand code]\<rparr>)
       else Inr (handled, s1))"
| "deliver env SDL_OTHER p s = Inr (False, s)"

text \<open>
  The loop of \<open>UI::Handle\<close>. The first argument after the event is the iterator \<open>it\<close>, as
  its distance from \<open>stack.begin()\<close>; the loop runs while it is not zero and \<open>handled\<close> is
  false. A panel found in \<open>toPop\<close> is passed over (\<open>continue\<close>); after the panel's turn
  \<open>TrapAllEvents()\<close> ends the loop (\<open>break\<close>).
\<close>

fun walk :: "env \<Rightarrow> event \<Rightarrow> nat \<Rightarrow> UI \<Rightarrow> error + (bool \<times> UI)" where
  "walk env e 0 s = Inr (False, s)"
| "walk env e (Suc it) s =
     (let p = stack s ! it
      in if count_list (toPop s) p \<noteq> 0 then walk env e it s
         else and_then (deliver env e p s) (\<lambda>(handled, s1).
              and_then (invoke env p TrapAllEvents s1) (\<lambda>(trap, s2).
                if trap then Inr (handled, s2)
                else if handled then Inr (handled, s2)
                else walk env e it s2)))"

definition Handle :: "env \<Rightarrow> event \<Rightarrow> UI \<Rightarrow> error + (bool \<times> UI)" where
  "Handle env e s =
     and_then (walk env e (length (stack s)) s) (\<lambda>(handled, s1). Inr (handled, PushOrPop s1))"

subsection \<open>Stepping and drawing\<close>

text \<open>
  A loop that calls the same member function on each panel of a range of the stack, from
  the lower to the higher.
\<close>

fun invoke_each :: "env \<Rightarrow> call \<Rightarrow> ptr list \<Rightarrow> UI \<Rightarrow> error + UI" where
  "invoke_each env c [] s = Inr s"
| "invoke_each env c (p # ps) s =
     and_then (invoke env p c s) (\<lambda>(u, s1). invoke_each env c ps s1)"

definition StepAll :: "env \<Rightarrow> UI \<Rightarrow> error + UI" where
  "StepAll env s = (let s0 = PushOrPop s in invoke_each env Step (stack s0) s0)"

text \<open>
  The second loop of \<open>UI::DrawAll\<close>: \<open>it\<close> goes down from \<open>stack.end()\<close> and stops on the
  first panel that is full-screen, or at \<open>stack.begin()\<close>. The result is where it stops.
\<close>

fun find_full_screen :: "env \<Rightarrow> nat \<Rightarrow> UI \<Rightarrow> error + (nat \<times> UI)" where
  "find_full_screen env 0 s = Inr (0, s)"
| "find_full_screen env (Suc it) s =
     and_then (invoke env (stack s ! it) IsFullScreen s) (\<lambda>(full, s1).
       if full then Inr (it, s1) else find_full_screen env it s1)"

definition DrawAll :: "env \<Rightarrow> UI \<Rightarrow> error + UI" where
  "DrawAll env s =
     and_then (invoke_each env ClearZones (stack s) s) (\<lambda>s1.
     and_then (find_full_screen env (length (stack s1)) s1) (\<lambda>(it, s2).
       invoke_each env Draw (drop it (stack s2)) s2))"

subsection \<open>Properties of a run\<close>

text \<open>The calls made on panels between an earlier state and a later one.\<close>

definition calls_between :: "UI \<Rightarrow> UI \<Rightarrow> invocation list" where
  "calls_between s s' = drop (length (trace s)) (trace s')"

text \<open>
  The member functions that hand an event to a panel, as opposed to the queries and to
  the stepping and drawing calls.
\<close>

fun is_delivery :: "call \<Rightarrow> bool" where
  "is_delivery TrapAllEvents = False"
| "is_delivery Step = False"
| "is_delivery Draw = False"
| "is_delivery ClearZones = False"
| "is_delivery IsFullScreen = False"
| "is_delivery c = True"

text \<open>Every panel in the stack or waiting in the push queue has had \<open>SetUI\<close> called.\<close>

definition wired_inv :: "UI \<Rightarrow> bool" where
  "wired_inv s = (\<forall>p \<in> set (stack s) \<union> set (toPush s). p \<noteq> 0 \<longrightarrow> p \<in> set (wired s))"

text \<open>What a request made by a panel leaves as it is, and how the pop queue changes.\<close>

definition frame :: "UI \<Rightarrow> UI \<Rightarrow> bool" where
  "frame s s' =
     (stack s' = stack s \<and> trace s' = trace s \<and> lastTap s' = lastTap s
      \<and> zoneFingerId s' = zoneFingerId s \<and> panelFingerId s' = panelFingerId s
      \<and> isDone s' = isDone s \<and> canSave s' = canSave s \<and> injected s' = injected s
      \<and> set (toPop s) \<subseteq> set (toPop s') \<and> (wired_inv s \<longrightarrow> wired_inv s'))"

text \<open>
  Partial correctness of a computation that may fail: if it returns, the result
  satisfies \<open>Q\<close>.
\<close>

definition holds :: "error + 'a \<Rightarrow> ('a \<Rightarrow> bool) \<Rightarrow> bool" where
  "holds m Q = (case m of Inl e \<Rightarrow> True | Inr x \<Rightarrow> Q x)"

text \<open>
  What one panel's turn in the walk does to the controller: the stack is the same, the
  pop queue has not lost any entry, and the trace has grown by event deliveries to that
  panel, each made with the stack as it was.
\<close>

definition turn :: "ptr \<Rightarrow> UI \<Rightarrow> UI \<Rightarrow> bool" where
  "turn p s s' =
     (stack s' = stack s \<and> set (toPop s) \<subseteq> set (toPop s') \<and> (wired_inv s \<longrightarrow> wired_inv s')
      \<and> (\<exists>new. trace s' = trace s @ new
            \<and> (\<forall>i \<in> set new. target i = p \<and> p \<noteq> 0 \<and> seen i = stack s
                  \<and> is_delivery (called i))))"

text \<open>
  What the walk does from the iterator position \<open>it\<close> on: the calls go to panels
  below that position that were not in the pop queue, each sees the same stack, and a
  call of \<open>TrapAllEvents\<close> that returned true can only be the last call.
\<close>

definition walked :: "nat \<Rightarrow> UI \<Rightarrow> UI \<Rightarrow> bool" where
  "walked it s s' =
     (stack s' = stack s \<and> set (toPop s) \<subseteq> set (toPop s') \<and> (wired_inv s \<longrightarrow> wired_inv s')
      \<and> (\<exists>new. trace s' = trace s @ new
            \<and> (\<forall>i \<in> set new. target i \<in> set (take it (stack s)) \<and> target i \<noteq> 0
                  \<and> target i \<notin> set (toPop s) \<and> seen i = stack s)
            \<and> (\<forall>i \<in> set (butlast new). called i = TrapAllEvents \<longrightarrow> \<not> returned i)))"

text \<open>
  The states of the loop of \<open>UI::Handle\<close>: \<open>reaches env e s0 it s\<close> says that the
  walk started in \<open>s0\<close> is at the head of the loop with the iterator at distance \<open>it\<close>
  from \<open>stack.begin()\<close>, \<open>handled\<close> false, in state \<open>s\<close>. It gets there from the
  position above by passing over a panel found in \<open>toPop\<close>, or by a turn of a panel
  that neither handles the event nor traps.
\<close>

inductive reaches :: "env \<Rightarrow> event \<Rightarrow> UI \<Rightarrow> nat \<Rightarrow> UI \<Rightarrow> bool" for env e s0 where
  start: "reaches env e s0 (length (stack s0)) s0"
| skip: "reaches env e s0 (Suc it) s \<Longrightarrow> count_list (toPop s) (stack s ! it) \<noteq> 0
    \<Longrightarrow> reaches env e s0 it s"
| pass: "reaches env e s0 (Suc it) s \<Longrightarrow> count_list (toPop s) (stack s ! it) = 0
    \<Longrightarrow> deliver env e (stack s ! it) s = Inr (False, s1)
    \<Longrightarrow> invoke env (stack s ! it) TrapAllEvents s1 = Inr (False, s2)
    \<Longrightarrow> reaches env e s0 it s2"

code_pred reaches .

fun is_Release :: "call \<Rightarrow> bool" where
  "is_Release (Release x y) = True"
| "is_Release c = False"

text \<open>The click counts of the calls of \<open>Click\<close> in a list of calls, in order.\<close>

fun click_counts :: "invocation list \<Rightarrow> int list" where
  "click_counts [] = []"
| "click_counts (Invocation p (Click x y n) r st # rest) = n # click_counts rest"
| "click_counts (i # rest) = click_counts rest"

text \<open>
  A zone release or a finger-up notification that returned true: the two calls of the
  touch-up branch that come before the generic release.
\<close>

fun owner_handled :: "invocation \<Rightarrow> bool" where
  "owner_handled (Invocation p (ZoneMouseUp x y) r st) = r"
| "owner_handled (Invocation p (FingerUp x y f) r st) = r"
| "owner_handled i = False"

text \<open>The calls that follow the first such call in a list of calls.\<close>

fun after_handled :: "invocation list \<Rightarrow> invocation list" where
  "after_handled [] = []"
| "after_handled (i # rest) = (if owner_handled i then rest else after_handled rest)"

text \<open>\<open>Release\<close> was called on some panel between the two states.\<close>

definition released :: "UI \<Rightarrow> UI \<Rightarrow> bool" where
  "released s s' = (\<exists>i \<in> set (calls_between s s'). is_Release (called i))"

text \<open>
  What the touch-up branch does to the two owners in one panel's turn, for the finger
  \<open>f\<close> and the value \<open>h\<close> of \<open>handled\<close> after the turn: the zone-owning finger
  becomes none if it was \<open>f\<close> and stays otherwise; the drag-owning finger becomes none
  if \<open>Release\<close> was called and stays otherwise; \<open>Release\<close> is called exactly when \<open>f\<close>
  is the drag-owning finger and neither the zone release nor the finger-up notification
  returned true; if one of them did, the event is handled, and no \<open>Release\<close> follows.
\<close>

definition up_turn :: "int \<Rightarrow> bool \<Rightarrow> UI \<Rightarrow> UI \<Rightarrow> bool" where
  "up_turn f h s s' =
     (zoneFingerId s' = (if zoneFingerId s = f then - 1 else zoneFingerId s)
      \<and> panelFingerId s' = (if released s s' then - 1 else panelFingerId s)
      \<and> released s s'
          = (panelFingerId s = f \<and> \<not> (\<exists>i \<in> set (calls_between s s'). owner_handled i))
      \<and> ((\<exists>i \<in> set (calls_between s s'). owner_handled i) \<longrightarrow> h)
      \<and> \<not> (\<exists>i \<in> set (after_handled (calls_between s s')). is_Release (called i)))"

text \<open>
  What the touch-down branch does in one panel's turn: either no click is delivered and
  the last-tap timestamp stays, or one click is delivered, the timestamp becomes the
  clock as read just before that call, and the click count is 1 if the clock is more
  than 500 past the old timestamp (in 32-bit unsigned arithmetic) and 2 otherwise.
\<close>

definition tap_turn :: "env \<Rightarrow> UI \<Rightarrow> UI \<Rightarrow> bool" where
  "tap_turn env s s' =
     (click_counts (calls_between s s') = [] \<and> lastTap s' = lastTap s
      \<or> click_counts (calls_between s s') = [if 500 < lastTap s' - lastTap s then 1 else 2]
        \<and> (\<exists>t. lastTap s' = SDL_GetTicks env t \<and> trace t = butlast (trace s')
              \<and> lastTap t = lastTap s))"

text \<open>
  Total correctness: the computation returns, and the result satisfies \<open>Q\<close>.
\<close>

definition returns :: "error + 'a \<Rightarrow> ('a \<Rightarrow> bool) \<Rightarrow> bool" where
  "returns m Q = (case m of Inl e \<Rightarrow> False | Inr x \<Rightarrow> Q x)"

text \<open>Panels that never ask to push a null handle.\<close>

definition polite :: "env \<Rightarrow> bool" where
  "polite env = (\<forall>s p c. ReqPush 0 \<notin> set (snd (respond env s p c)))"

subsection \<open>Concrete controllers and panels\<close>

text \<open>A controller as constructed: nothing in the stack, no finger remembered.\<close>

definition ui_empty :: UI where
  "ui_empty =
     \<lparr>stack = [], toPush = [], toPop = [], isDone = False, canSave = False, lastTap = 0,
      zoneFingerId = - 1, panelFingerId = - 1, trace = [], wired = [], injected = []\<rparr>"

text \<open>Panels that handle nothing and ask for nothing, on a 1920 by 1080 screen.\<close>

definition quiet :: env where
  "quiet =
     \<lparr>respond = (\<lambda>s p c. (False, [])), SDL_GetTicks = (\<lambda>s. 0), ScreenZoom = 100,
      ScreenLeft = - 960, ScreenTop = - 540, ScreenWidth = 1920, ScreenHeight = 1080\<rparr>"

text \<open>Panels whose zones claim every press, and that handle nothing else.\<close>

definition zone_panels :: env where
  "zone_panels =
     quiet\<lparr>respond := (\<lambda>s p c. (case c of ZoneMouseDown x y \<Rightarrow> True | _ \<Rightarrow> False, []))\<rparr>"


text \<open>Panels that handle a click and a finger-up notification, and nothing else.\<close>

definition tap_panels :: env where
  "tap_panels =
     quiet\<lparr>respond := (\<lambda>s p c.
       (case c of Click x y n \<Rightarrow> True | FingerUp x y f \<Rightarrow> True | _ \<Rightarrow> False, []))\<rparr>"

text \<open>
  Panels that handle nothing, with a clock that reads 1000 until five calls have been
  made and 1500 after.
\<close>

definition clock_panels :: env where
  "clock_panels = quiet\<lparr>SDL_GetTicks := (\<lambda>s. if length (trace s) < 5 then 1000 else 1500)\<rparr>"

text \<open>
  Panels that handle nothing; panel 3, when its zones are tested for a press, asks to
  pop panel 2 and to push panel 4.
\<close>

definition busy_panels :: env where
  "busy_panels =
     quiet\<lparr>respond := (\<lambda>s p c.
       (False, case c of ZoneMouseDown x y \<Rightarrow> if p = 3 then [ReqPop 2, ReqPush 4] else []
               | _ \<Rightarrow> []))\<rparr>"

text \<open>Panels that handle nothing and trap all events.\<close>

definition trap_panels :: env where
  "trap_panels =
     quiet\<lparr>respond := (\<lambda>s p c. (case c of TrapAllEvents \<Rightarrow> True | _ \<Rightarrow> False, []))\<rparr>"

text \<open>Panels that handle nothing; panel 2 is full-screen.\<close>

definition full_panels :: env where
  "full_panels =
     quiet\<lparr>respond := (\<lambda>s p c. (case c of IsFullScreen \<Rightarrow> p = 2 | _ \<Rightarrow> False, []))\<rparr>"


text \<open>A controller with panels 1, 2 and 3 in its stack, 3 on top, all wired.\<close>

definition ui_three :: UI where
  "ui_three = ui_empty\<lparr>stack := [1, 2, 3], wired := [1, 2, 3]\<rparr>"

section \<open>Lemmas\<close>

subsection \<open>The queues\<close>

lemma erase_first_remove1: "erase_first p xs = remove1 p xs"
  by (induction xs) auto

lemma fold_erase_first: "fold erase_first qs xs = fold remove1 qs xs"
proof -
  have "erase_first = remove1" by (intro ext) (rule erase_first_remove1)
  then show ?thesis by simp
qed

lemma erase_first_lowest: "p \<notin> set xs \<Longrightarrow> erase_first p (xs @ p # ys) = xs @ ys"
  by (induction xs) auto

lemma erase_first_absent: "p \<notin> set xs \<Longrightarrow> erase_first p xs = xs"
  by (induction xs) auto

lemma fold_remove1_append:
  "mset qs \<subseteq># mset xs \<Longrightarrow> fold remove1 qs (xs @ ys) = fold remove1 qs xs @ ys"
proof (induction qs arbitrary: xs)
  case Nil
  then show ?case by simp
next
  case (Cons q qs)
  from Cons.prems have q: "q \<in> set xs"
    by (metis mset.simps(2) mset_subset_eq_insertD set_mset_mset)
  from Cons.prems have "mset qs \<subseteq># mset (remove1 q xs)"
    by (simp add: insert_subset_eq_iff)
  then have "fold remove1 qs (remove1 q xs @ ys) = fold remove1 qs (remove1 q xs) @ ys"
    by (rule Cons.IH)
  with q show ?case by (simp add: remove1_append)
qed

lemma fold_remove1_all: "mset qs = mset xs \<Longrightarrow> fold remove1 qs xs = []"
proof (induction qs arbitrary: xs)
  case Nil
  then show ?case by simp
next
  case (Cons q qs)
  from Cons.prems have "mset qs = mset (remove1 q xs)"
    by (metis add_mset_remove_trivial mset.simps(2) mset_remove1)
  then show ?case using Cons.IH by simp
qed

lemma remove1_distinct_filter: "distinct xs \<Longrightarrow> remove1 q xs = filter (\<lambda>x. x \<noteq> q) xs"
proof (induction xs)
  case Nil
  then show ?case by simp
next
  case (Cons x xs)
  show ?case
  proof (cases "x = q")
    case True
    with Cons.prems have "q \<notin> set xs" by simp
    then have "filter (\<lambda>x. x \<noteq> q) xs = xs" by (auto simp: filter_id_conv)
    with True show ?thesis by simp
  next
    case False
    with Cons show ?thesis by simp
  qed
qed

lemma fold_remove1_distinct:
  "distinct xs \<Longrightarrow> fold remove1 qs xs = filter (\<lambda>x. x \<notin> set qs) xs"
proof (induction qs arbitrary: xs)
  case Nil
  then show ?case by simp
next
  case (Cons q qs)
  have r: "remove1 q xs = filter (\<lambda>x. x \<noteq> q) xs"
    using Cons.prems by (rule remove1_distinct_filter)
  have "fold remove1 (q # qs) xs = fold remove1 qs (remove1 q xs)" by simp
  also have "\<dots> = filter (\<lambda>x. x \<notin> set qs) (remove1 q xs)"
    using Cons.prems by (intro Cons.IH) simp
  also have "\<dots> = filter (\<lambda>x. x \<notin> set (q # qs)) xs"
    unfolding r by (induction xs) auto
  finally show ?case .
qed

lemma PopThrough_loop_found:
  "P \<notin> set xs \<Longrightarrow> PopThrough_loop P (xs @ P # ys) q = q @ xs @ [P]"
  by (induction xs arbitrary: q) auto

lemma PopThrough_loop_absent: "P \<notin> set xs \<Longrightarrow> PopThrough_loop P xs q = q @ xs"
  by (induction xs arbitrary: q) auto

lemma toPop_PopThrough_found:
  assumes "stack s = lower @ P # upper" "P \<notin> set upper"
  shows "toPop (PopThrough P s) = toPop s @ rev upper @ [P]"
proof -
  have "rev (stack s) = rev upper @ P # rev lower" using assms by simp
  moreover have "P \<notin> set (rev upper)" using assms by simp
  ultimately show ?thesis by (simp add: PopThrough_def PopThrough_loop_found)
qed

lemma toPop_PopThrough_absent:
  "P \<notin> set (stack s) \<Longrightarrow> toPop (PopThrough P s) = toPop s @ rev (stack s)"
  by (simp add: PopThrough_def PopThrough_loop_absent)

lemma stack_PushOrPop:
  "stack (PushOrPop s) = fold remove1 (toPop s) (stack s @ filter (\<lambda>p. p \<noteq> 0) (toPush s))"
  by (simp add: PushOrPop_def fold_erase_first)

lemma PopThrough_fields: "stack (PopThrough P s) = stack s" "toPush (PopThrough P s) = toPush s"
  by (simp_all add: PopThrough_def)

lemma PopThrough_apply_found:
  assumes st: "stack s = lower @ P # upper" and d: "distinct (stack s)" and q: "toPop s = []"
  shows "stack (PushOrPop (PopThrough P s)) = lower @ filter (\<lambda>p. p \<noteq> 0) (toPush s)"
proof -
  from st d have P: "P \<notin> set upper" by simp
  have tp: "toPop (PopThrough P s) = rev upper @ [P]"
    using toPop_PopThrough_found [OF st P] q by simp
  have sub: "mset (rev upper @ [P]) \<subseteq># mset (stack s)" by (simp add: st)
  have "fold remove1 (rev upper @ [P]) (stack s) = filter (\<lambda>x. x \<notin> set (rev upper @ [P])) (stack s)"
    using d by (rule fold_remove1_distinct)
  also have "\<dots> = lower" using d by (auto simp: st filter_id_conv filter_empty_conv)
  finally have "fold remove1 (rev upper @ [P]) (stack s) = lower" .
  then show ?thesis
    using fold_remove1_append [OF sub] by (simp add: stack_PushOrPop PopThrough_fields tp)
qed

lemma PopThrough_apply_absent:
  assumes P: "P \<notin> set (stack s)" and q: "toPop s = []"
  shows "stack (PushOrPop (PopThrough P s)) = filter (\<lambda>p. p \<noteq> 0) (toPush s)"
proof -
  have tp: "toPop (PopThrough P s) = rev (stack s)"
    using toPop_PopThrough_absent [OF P] q by simp
  have "fold remove1 (rev (stack s)) (stack s) = []" by (rule fold_remove1_all) simp
  moreover have "mset (rev (stack s)) \<subseteq># mset (stack s)" by simp
  ultimately show ?thesis
    using fold_remove1_append [of "rev (stack s)" "stack s"]
    by (simp add: stack_PushOrPop PopThrough_fields tp)
qed

lemma wired_inv_Push: "wired_inv s \<Longrightarrow> Push panel s = Inr s' \<Longrightarrow> wired_inv s'"
  by (auto simp: wired_inv_def Push_def split: if_splits)

lemma set_fold_remove1: "set (fold remove1 qs xs) \<subseteq> set xs"
proof (induction qs arbitrary: xs)
  case Nil
  then show ?case by simp
next
  case (Cons q qs)
  have "set (fold remove1 qs (remove1 q xs)) \<subseteq> set (remove1 q xs)" by (rule Cons.IH)
  also have "\<dots> \<subseteq> set xs" by (rule set_remove1_subset)
  finally show ?case by simp
qed

lemma set_stack_PushOrPop:
  "set (stack (PushOrPop s)) \<subseteq> set (stack s) \<union> (set (toPush s) - {0})"
  using set_fold_remove1 [of "toPop s" "stack s @ filter (\<lambda>p. p \<noteq> 0) (toPush s)"]
  by (auto simp: stack_PushOrPop)

lemma wired_inv_PushOrPop: "wired_inv s \<Longrightarrow> wired_inv (PushOrPop s)"
proof -
  assume inv: "wired_inv s"
  have w: "wired (PushOrPop s) = wired s" "toPush (PushOrPop s) = []"
    by (simp_all add: PushOrPop_def)
  show ?thesis
    unfolding wired_inv_def w
    using inv set_stack_PushOrPop [of s] by (auto simp: wired_inv_def)
qed

subsection \<open>Calls on panels\<close>

lemma and_then_Inr: "(and_then m f = Inr y) = (\<exists>x. m = Inr x \<and> f x = Inr y)"
  by (cases m) (simp_all add: and_then_def)

lemma PopThrough_loop_queue: "PopThrough_loop P xs q = q @ PopThrough_loop P xs []"
proof (induction xs arbitrary: q)
  case Nil
  then show ?case by simp
next
  case (Cons x xs)
  show ?case
    using Cons.IH [of "q @ [x]"] Cons.IH [of "[x]"] by simp
qed

lemma set_PopThrough_loop: "set q \<subseteq> set (PopThrough_loop P xs q)"
  using PopThrough_loop_queue [of P xs q] by simp

lemma frame_refl: "frame s s"
  by (simp add: frame_def)

lemma frame_trans: "frame s s1 \<Longrightarrow> frame s1 s2 \<Longrightarrow> frame s s2"
  by (auto simp: frame_def)

lemma apply_request_frame: "apply_request r s = Inr s' \<Longrightarrow> frame s s'"
proof (cases r)
  case (ReqPush p)
  assume "apply_request r s = Inr s'"
  with ReqPush show ?thesis
    by (auto simp: frame_def Push_def wired_inv_def split: if_splits)
next
  case (ReqPop p)
  assume "apply_request r s = Inr s'"
  with ReqPop show ?thesis
    by (auto simp: frame_def Pop_def wired_inv_def)
next
  case (ReqPopThrough p)
  assume "apply_request r s = Inr s'"
  with ReqPopThrough show ?thesis
    using set_PopThrough_loop [of "toPop s" p "rev (stack s)"]
    by (auto simp: frame_def PopThrough_def wired_inv_def)
qed

lemma apply_requests_frame: "apply_requests rs s = Inr s' \<Longrightarrow> frame s s'"
proof (induction rs arbitrary: s)
  case Nil
  then show ?case by (simp add: frame_refl)
next
  case (Cons r rs)
  then show ?case
    by (auto split: sum.splits intro: frame_trans apply_request_frame)
qed

lemma invoke_Inr:
  assumes "invoke env p c s = Inr (r, s')"
  shows "p \<noteq> 0 \<and> r = fst (respond env s p c)
     \<and> frame (s\<lparr>trace := trace s @ [Invocation p c r (stack s)]\<rparr>) s'"
  using assms
  by (auto simp: invoke_def split: if_splits prod.splits sum.splits dest: apply_requests_frame)

subsection \<open>Rules for composed calls\<close>

lemma wired_inv_update [simp]:
  "wired_inv (s\<lparr>trace := t\<rparr>) = wired_inv s"
  "wired_inv (s\<lparr>zoneFingerId := z\<rparr>) = wired_inv s"
  "wired_inv (s\<lparr>panelFingerId := f\<rparr>) = wired_inv s"
  "wired_inv (s\<lparr>lastTap := w\<rparr>) = wired_inv s"
  "wired_inv (s\<lparr>injected := cs\<rparr>) = wired_inv s"
  by (simp_all add: wired_inv_def)

lemma holdsD: "holds m Q \<Longrightarrow> m = Inr x \<Longrightarrow> Q x"
  by (simp add: holds_def)

lemma holds_Inr_eq: "holds (Inr x) Q = Q x"
  by (simp add: holds_def)

lemma holds_and_then: "holds m (\<lambda>x. holds (f x) Q) \<Longrightarrow> holds (and_then m f) Q"
  by (cases m) (simp_all add: holds_def and_then_def)

lemma holds_if: "(b \<Longrightarrow> holds m Q) \<Longrightarrow> (\<not> b \<Longrightarrow> holds n Q) \<Longrightarrow> holds (if b then m else n) Q"
  by simp

lemma toPop_apply_request: "apply_request r s = Inr s' \<Longrightarrow> \<exists>q. toPop s' = toPop s @ q"
  using PopThrough_loop_queue [of _ "rev (stack s)" "toPop s"]
  by (cases r) (auto simp: Push_def Pop_def PopThrough_def split: if_splits)

lemma toPop_apply_requests: "apply_requests rs s = Inr s' \<Longrightarrow> \<exists>q. toPop s' = toPop s @ q"
proof (induction rs arbitrary: s)
  case Nil
  then show ?case by simp
next
  case (Cons r rs)
  from Cons.prems obtain s1 where 1: "apply_request r s = Inr s1"
    and 2: "apply_requests rs s1 = Inr s'"
    by (auto split: sum.splits)
  from toPop_apply_request [OF 1] Cons.IH [OF 2] show ?case by auto
qed

lemma toPop_invoke: "invoke env p c s = Inr (r, s') \<Longrightarrow> \<exists>q. toPop s' = toPop s @ q"
  by (auto simp: invoke_def split: if_splits prod.splits sum.splits
      dest!: toPop_apply_requests)

lemma holds_invoke:
  assumes "\<And>r s' q. p \<noteq> 0 \<Longrightarrow> stack s' = stack s
     \<Longrightarrow> trace s' = trace s @ [Invocation p c r (stack s)]
     \<Longrightarrow> lastTap s' = lastTap s \<Longrightarrow> zoneFingerId s' = zoneFingerId s
     \<Longrightarrow> panelFingerId s' = panelFingerId s \<Longrightarrow> isDone s' = isDone s
     \<Longrightarrow> canSave s' = canSave s \<Longrightarrow> injected s' = injected s
     \<Longrightarrow> toPop s' = toPop s @ q \<Longrightarrow> (wired_inv s \<longrightarrow> wired_inv s') \<Longrightarrow> Q (r, s')"
  shows "holds (invoke env p c s) Q"
proof (cases "invoke env p c s")
  case (Inl e)
  then show ?thesis by (simp add: holds_def)
next
  case (Inr x)
  obtain r s' where x: "x = (r, s')" by (cases x)
  from toPop_invoke [of env p c s r s'] Inr x obtain q where "toPop s' = toPop s @ q" by auto
  with invoke_Inr [of env p c s r s'] Inr x have "Q (r, s')"
    by (intro assms) (simp_all add: frame_def)
  with Inr x show ?thesis by (simp add: holds_def)
qed

lemma holds_deliver_turn: "holds (deliver env e p s) (\<lambda>(h, s'). turn p s s')"
  by (cases e; simp only: deliver.simps Let_def)
    ((rule holds_and_then | rule holds_invoke | rule holds_if
      | simp only: holds_Inr_eq prod.case | (auto simp: turn_def; fail))+)

lemma deliver_turn: "deliver env e p s = Inr (h, s') \<Longrightarrow> turn p s s'"
  using holdsD [OF holds_deliver_turn, of env e p s "(h, s')"] by simp

lemma invoke_dest:
  assumes "invoke env p c s = Inr (r, s')"
  shows "stack s' = stack s \<and> trace s' = trace s @ [Invocation p c r (stack s)]
    \<and> lastTap s' = lastTap s \<and> zoneFingerId s' = zoneFingerId s
    \<and> panelFingerId s' = panelFingerId s \<and> isDone s' = isDone s \<and> canSave s' = canSave s
    \<and> injected s' = injected s \<and> set (toPop s) \<subseteq> set (toPop s')
    \<and> (wired_inv s \<longrightarrow> wired_inv s')"
  using invoke_Inr [OF assms] by (simp add: frame_def)

subsection \<open>The walk of Handle\<close>

lemma walk_SucE:
  assumes "walk env e (Suc it) s = Inr (h, s')"
  obtains (skip) "stack s ! it \<in> set (toPop s)" "walk env e it s = Inr (h, s')"
  | (stop) s1 trap where "stack s ! it \<notin> set (toPop s)"
      "deliver env e (stack s ! it) s = Inr (h, s1)"
      "invoke env (stack s ! it) TrapAllEvents s1 = Inr (trap, s')" "trap \<or> h"
  | (continue) s1 s2 where "stack s ! it \<notin> set (toPop s)"
      "deliver env e (stack s ! it) s = Inr (False, s1)"
      "invoke env (stack s ! it) TrapAllEvents s1 = Inr (False, s2)"
      "walk env e it s2 = Inr (h, s')"
proof (cases "stack s ! it \<in> set (toPop s)")
  case True
  with assms have "walk env e it s = Inr (h, s')"
    by (simp add: count_list_0_iff)
  with True show ?thesis by (rule skip)
next
  case False
  with assms obtain hd s1 trap s2 where
    d: "deliver env e (stack s ! it) s = Inr (hd, s1)"
    and t: "invoke env (stack s ! it) TrapAllEvents s1 = Inr (trap, s2)"
    and r: "(if trap then Inr (hd, s2) else if hd then Inr (hd, s2) else walk env e it s2)
        = Inr (h, s')"
    by (auto simp: count_list_0_iff and_then_Inr Let_def)
  show ?thesis
  proof (cases "trap \<or> hd")
    case True
    with r have "hd = h" "s2 = s'" by (auto split: if_splits)
    with False d t True show ?thesis by (intro stop) auto
  next
    case f: False
    with r have "walk env e it s2 = Inr (h, s')" by simp
    with False d t f show ?thesis by (intro continue) auto
  qed
qed

lemma walked_refl: "walked it s s"
  by (simp add: walked_def)

lemma nth_in_take: "it < length xs \<Longrightarrow> xs ! it \<in> set (take (Suc it) xs)"
  by (simp add: take_Suc_conv_app_nth)

lemma walked_stop:
  assumes d: "turn (stack s ! it) s s1"
    and t: "invoke env (stack s ! it) TrapAllEvents s1 = Inr (trap, s')"
    and n: "stack s ! it \<notin> set (toPop s)" and l: "it < length (stack s)"
  shows "walked (Suc it) s s'"
proof -
  from d obtain new where new: "trace s1 = trace s @ new"
    and each: "\<forall>i \<in> set new. target i = stack s ! it \<and> stack s ! it \<noteq> 0 \<and> seen i = stack s
        \<and> is_delivery (called i)"
    and st: "stack s1 = stack s" and q: "set (toPop s) \<subseteq> set (toPop s1)"
    and w: "wired_inv s \<longrightarrow> wired_inv s1"
    by (auto simp: turn_def)
  note i = invoke_dest [OF t]
  from invoke_Inr [OF t] have nz: "stack s ! it \<noteq> 0" by simp
  have tr: "trace s' = trace s @ (new @ [Invocation (stack s ! it) TrapAllEvents trap (stack s)])"
    using i new st by simp
  have "\<forall>i \<in> set new. called i \<noteq> TrapAllEvents" using each by auto
  then show ?thesis
    unfolding walked_def
    using i st q w each n nz nth_in_take [OF l] tr by auto
qed

lemma walked_step:
  assumes a: "walked (Suc it) s s2" and last: "trace s2 = trace s @ new" "new \<noteq> []"
      "called (last new) = TrapAllEvents" "\<not> returned (last new)"
    and b: "walked it s2 s'"
  shows "walked (Suc it) s s'"
proof -
  from a last have A: "stack s2 = stack s" "set (toPop s) \<subseteq> set (toPop s2)"
    "wired_inv s \<longrightarrow> wired_inv s2"
    "\<forall>i \<in> set new. target i \<in> set (take (Suc it) (stack s)) \<and> target i \<noteq> 0
        \<and> target i \<notin> set (toPop s) \<and> seen i = stack s"
    "\<forall>i \<in> set (butlast new). called i = TrapAllEvents \<longrightarrow> \<not> returned i"
    by (auto simp: walked_def)
  from b obtain more where B: "stack s' = stack s2" "set (toPop s2) \<subseteq> set (toPop s')"
    "wired_inv s2 \<longrightarrow> wired_inv s'" "trace s' = trace s2 @ more"
    "\<forall>i \<in> set more. target i \<in> set (take it (stack s2)) \<and> target i \<noteq> 0
        \<and> target i \<notin> set (toPop s2) \<and> seen i = stack s2"
    "\<forall>i \<in> set (butlast more). called i = TrapAllEvents \<longrightarrow> \<not> returned i"
    by (auto simp: walked_def)
  have sub: "set (take it (stack s)) \<subseteq> set (take (Suc it) (stack s))"
    by (rule set_take_subset_set_take) simp
  have all: "\<forall>i \<in> set new. called i = TrapAllEvents \<longrightarrow> \<not> returned i"
  proof
    fix i assume "i \<in> set new"
    with last(2) have "i \<in> set (butlast new) \<or> i = last new"
      by (metis Un_iff append_butlast_last_id empty_iff empty_set set_ConsD set_append)
    with A(5) last(3,4) show "called i = TrapAllEvents \<longrightarrow> \<not> returned i" by auto
  qed
  have bl: "\<forall>i \<in> set (butlast (new @ more)). called i = TrapAllEvents \<longrightarrow> \<not> returned i"
    using all B(6) by (auto simp: butlast_append dest: in_set_butlastD)
  have tr: "trace s' = trace s @ (new @ more)" using last(1) B(4) by simp
  show ?thesis
    unfolding walked_def
    apply (intro conjI)
       apply (simp add: A B)
    using A(2) B(2) apply blast
    using A(3) B(3) apply blast
    apply (rule exI [of _ "new @ more"])
    using tr bl A(1,2,4) B(5) sub by auto
qed

lemma walked_mono: "walked it s s' \<Longrightarrow> walked (Suc it) s s'"
  using set_take_subset_set_take [of it "Suc it" "stack s"] by (auto simp: walked_def)

lemma walk_walked:
  "walk env e it s = Inr (h, s') \<Longrightarrow> it \<le> length (stack s) \<Longrightarrow> walked it s s'"
proof (induction it arbitrary: s)
  case 0
  then show ?case by (simp add: walked_refl)
next
  case (Suc it)
  from Suc.prems(2) have l: "it < length (stack s)" by simp
  from Suc.prems(1) show ?case
  proof (cases rule: walk_SucE)
    case skip
    then have "walked it s s'" using Suc.IH l by simp
    then show ?thesis by (rule walked_mono)
  next
    case (stop s1 trap)
    from walked_stop [OF deliver_turn [OF stop(2)] stop(3) stop(1) l] show ?thesis .
  next
    case (continue s1 s2)
    note d = deliver_turn [OF continue(2)]
    have a: "walked (Suc it) s s2" by (rule walked_stop [OF d continue(3) continue(1) l])
    from d obtain new where new: "trace s1 = trace s @ new" and st: "stack s1 = stack s"
      by (auto simp: turn_def)
    note i = invoke_dest [OF continue(3)]
    have tr: "trace s2 = trace s @ (new @ [Invocation (stack s ! it) TrapAllEvents False (stack s)])"
      using i new st by simp
    have "stack s2 = stack s" using i st by simp
    with l have "it \<le> length (stack s2)" by simp
    from Suc.IH [OF continue(4) this] have b: "walked it s2 s'" .
    show ?thesis by (rule walked_step [OF a tr _ _ _ b]) simp_all
  qed
qed

lemma calls_between_append: "trace s' = trace s @ new \<Longrightarrow> calls_between s s' = new"
  by (simp add: calls_between_def)


lemma trace_PushOrPop [simp]: "trace (PushOrPop s) = trace s"
  by (simp add: PushOrPop_def)

lemma calls_between_PushOrPop [simp]:
  "calls_between s (PushOrPop s') = calls_between s s'"
  "calls_between (PushOrPop s) s' = calls_between s s'"
  by (simp_all add: calls_between_def)

lemma Handle_Inr:
  "Handle env e s = Inr (h, s')
   \<longleftrightarrow> (\<exists>w. walk env e (length (stack s)) s = Inr (h, w) \<and> s' = PushOrPop w)"
  by (auto simp: Handle_def and_then_Inr)

lemma reaches_walk:
  "reaches env e s0 it s \<Longrightarrow> walk env e (length (stack s0)) s0 = walk env e it s"
proof (induction rule: reaches.induct)
  case start
  show ?case by simp
next
  case (skip it s)
  then show ?case by simp
next
  case (pass it s s1 s2)
  then show ?case by (simp add: and_then_def)
qed



subsection \<open>Stepping and drawing\<close>

lemma invoke_each_calls:
  "invoke_each env c ps s = Inr s' \<Longrightarrow>
     stack s' = stack s \<and> set (toPop s) \<subseteq> set (toPop s') \<and> (wired_inv s \<longrightarrow> wired_inv s')
     \<and> (\<exists>new. trace s' = trace s @ new \<and> map target new = ps
           \<and> (\<forall>i \<in> set new. called i = c \<and> seen i = stack s))"
proof (induction ps arbitrary: s)
  case Nil
  then show ?case by simp
next
  case (Cons p ps)
  from Cons.prems obtain u s1 where 1: "invoke env p c s = Inr (u, s1)"
    and 2: "invoke_each env c ps s1 = Inr s'"
    by (auto simp: and_then_Inr)
  note i = invoke_dest [OF 1]
  from Cons.IH [OF 2] obtain new where n: "stack s' = stack s1"
    "set (toPop s1) \<subseteq> set (toPop s')" "wired_inv s1 \<longrightarrow> wired_inv s'"
    "trace s' = trace s1 @ new" "map target new = ps"
    "\<forall>i \<in> set new. called i = c \<and> seen i = stack s1"
    by auto
  let ?new = "Invocation p c u (stack s) # new"
  have a: "trace s' = trace s @ ?new" using i n(4) by simp
  have b: "map target ?new = p # ps" using n(5) by simp
  have c: "\<forall>i \<in> set ?new. called i = c \<and> seen i = stack s"
    using n(6) i by simp
  have "\<exists>new. trace s' = trace s @ new \<and> map target new = p # ps
      \<and> (\<forall>i \<in> set new. called i = c \<and> seen i = stack s)"
    by (rule exI [of _ ?new]) (intro conjI a b c)
  moreover have "stack s' = stack s" using i n(1) by simp
  moreover have "set (toPop s) \<subseteq> set (toPop s')" using i n(2) by blast
  moreover have "wired_inv s \<longrightarrow> wired_inv s'" using i n(3) by blast
  ultimately show ?case by blast
qed

lemma find_full_screen_calls:
  "find_full_screen env it s = Inr (k, s') \<Longrightarrow> it \<le> length (stack s) \<Longrightarrow>
     k \<le> it \<and> stack s' = stack s
     \<and> (\<exists>fs. trace s' = trace s @ fs
           \<and> map target fs = rev (drop k (take it (stack s)))
           \<and> (\<forall>i \<in> set fs. called i = IsFullScreen \<and> seen i = stack s)
           \<and> (\<forall>i \<in> set (butlast fs). \<not> returned i)
           \<and> (k = 0 \<or> fs \<noteq> [] \<and> returned (last fs)))"
proof (induction it arbitrary: s)
  case 0
  then show ?case by simp
next
  case (Suc it)
  from Suc.prems(2) have l: "it < length (stack s)" by simp
  from Suc.prems(1) obtain full s1 where 1: "invoke env (stack s ! it) IsFullScreen s = Inr (full, s1)"
    and 2: "(if full then Inr (it, s1) else find_full_screen env it s1) = Inr (k, s')"
    by (auto simp: and_then_Inr)
  note i = invoke_dest [OF 1]
  let ?c = "Invocation (stack s ! it) IsFullScreen full (stack s)"
  show ?case
  proof (cases full)
    case True
    with 2 have k: "k = it" "s' = s1" by simp_all
    have "drop it (take (Suc it) (stack s)) = [stack s ! it]"
      using l by (simp add: take_Suc_conv_app_nth)
    then have m: "map target [?c] = rev (drop k (take (Suc it) (stack s)))" using k by simp
    have t: "trace s' = trace s @ [?c]" using i k by simp
    have b: "\<forall>i \<in> set (butlast [?c]). \<not> returned i" by simp
    have e: "k = 0 \<or> [?c] \<noteq> [] \<and> returned (last [?c])" using True by simp
    have a: "\<forall>i \<in> set [?c]. called i = IsFullScreen \<and> seen i = stack s" by simp
    have "k \<le> Suc it" using k by simp
    moreover have "stack s' = stack s" using i k by simp
    moreover have "\<exists>fs. trace s' = trace s @ fs
           \<and> map target fs = rev (drop k (take (Suc it) (stack s)))
           \<and> (\<forall>i \<in> set fs. called i = IsFullScreen \<and> seen i = stack s)
           \<and> (\<forall>i \<in> set (butlast fs). \<not> returned i)
           \<and> (k = 0 \<or> fs \<noteq> [] \<and> returned (last fs))"
      by (rule exI [of _ "[?c]"]) (intro conjI t m a b e)
    ultimately show ?thesis by (intro conjI)
  next
    case False
    with 2 have r: "find_full_screen env it s1 = Inr (k, s')" by simp
    have "it \<le> length (stack s1)" using i l by simp
    from Suc.IH [OF r this] obtain fs where f: "k \<le> it" "stack s' = stack s1"
      "trace s' = trace s1 @ fs" "map target fs = rev (drop k (take it (stack s1)))"
      "\<forall>i \<in> set fs. called i = IsFullScreen \<and> seen i = stack s1"
      "\<forall>i \<in> set (butlast fs). \<not> returned i" "k = 0 \<or> fs \<noteq> [] \<and> returned (last fs)"
      by auto
    have "drop k (take (Suc it) (stack s)) = drop k (take it (stack s)) @ [stack s ! it]"
      using l f(1) by (simp add: take_Suc_conv_app_nth)
    then have m: "map target (?c # fs) = rev (drop k (take (Suc it) (stack s)))"
      using f(4) i by simp
    have t: "trace s' = trace s @ (?c # fs)" using i f(3) by simp
    have b: "\<forall>i \<in> set (butlast (?c # fs)). \<not> returned i" using f(6) False by simp
    have e: "k = 0 \<or> ?c # fs \<noteq> [] \<and> returned (last (?c # fs))" using f(7) by auto
    have a: "\<forall>i \<in> set (?c # fs). called i = IsFullScreen \<and> seen i = stack s" using f(5) i by simp
    from f(1) have "k \<le> Suc it" by simp
    moreover have "stack s' = stack s" using f(2) i by simp
    moreover have "\<exists>fs. trace s' = trace s @ fs
           \<and> map target fs = rev (drop k (take (Suc it) (stack s)))
           \<and> (\<forall>i \<in> set fs. called i = IsFullScreen \<and> seen i = stack s)
           \<and> (\<forall>i \<in> set (butlast fs). \<not> returned i)
           \<and> (k = 0 \<or> fs \<noteq> [] \<and> returned (last fs))"
      by (rule exI [of _ "?c # fs"]) (intro conjI t m a b e)
    ultimately show ?thesis by (intro conjI)
  qed
qed

lemma StepAll_calls:
  assumes "StepAll env s = Inr s'"
  shows "stack s' = stack (PushOrPop s) \<and> map target (calls_between s s') = stack (PushOrPop s)
     \<and> (\<forall>i \<in> set (calls_between s s'). called i = Step \<and> seen i = stack (PushOrPop s))"
proof -
  from assms have "invoke_each env Step (stack (PushOrPop s)) (PushOrPop s) = Inr s'"
    by (simp add: StepAll_def Let_def)
  from invoke_each_calls [OF this] show ?thesis
    by (auto simp: calls_between_def)
qed

subsection \<open>Touch events\<close>

lemma click_counts_append: "click_counts (xs @ ys) = click_counts xs @ click_counts ys"
  by (induction xs rule: click_counts.induct) simp_all

lemma holds_deliver_up:
  "holds (deliver env (SDL_FINGERUP fx fy f) p s) (\<lambda>(h, s'). up_turn f h s s')"
  apply (simp only: deliver.simps Let_def)
  apply ((rule holds_and_then | rule holds_invoke | rule holds_if
      | simp only: holds_Inr_eq prod.case
      | (simp add: up_turn_def released_def calls_between_def; fail)
      | (clarsimp simp: up_turn_def released_def calls_between_def; fail)
      | (auto simp: up_turn_def released_def calls_between_def; fail))+)
  done

lemma tap_turn_click:
  assumes "butlast (trace c) = trace t"
    and "click_counts (calls_between s c) = [if 500 < SDL_GetTicks env t - lastTap s then 1 else 2]"
    and "lastTap t = lastTap s"
  shows "tap_turn env s ((if rc then c\<lparr>panelFingerId := f\<rparr> else c)\<lparr>lastTap := SDL_GetTicks env t\<rparr>)"
proof -
  let ?s' = "(if rc then c\<lparr>panelFingerId := f\<rparr> else c)\<lparr>lastTap := SDL_GetTicks env t\<rparr>"
  have tr: "trace ?s' = trace c" by simp
  have "calls_between s ?s' = calls_between s c" by (simp add: calls_between_def)
  moreover have "lastTap ?s' = SDL_GetTicks env t" by simp
  moreover have "\<exists>u. lastTap ?s' = SDL_GetTicks env u \<and> trace u = butlast (trace ?s')
      \<and> lastTap u = lastTap s"
    by (rule exI [of _ t]) (simp add: assms)
  ultimately show ?thesis
    unfolding tap_turn_def using assms(2) by presburger
qed

lemma holds_deliver_tap:
  "holds (deliver env (SDL_FINGERDOWN fx fy f) p s) (\<lambda>(h, s'). tap_turn env s s')"
  apply (simp only: deliver.simps Let_def)
  apply ((rule holds_and_then | rule holds_invoke | rule holds_if
      | simp only: holds_Inr_eq prod.case
      | (rule tap_turn_click; (simp add: calls_between_def butlast_append; fail))
      | (simp add: tap_turn_def calls_between_def; fail)
      | (clarsimp simp: tap_turn_def calls_between_def; fail))+)
  done

lemma deliver_up:
  "deliver env (SDL_FINGERUP fx fy f) p s = Inr (h, s') \<Longrightarrow> up_turn f h s s'"
  using holdsD [OF holds_deliver_up, of env fx fy f p s "(h, s')"] by simp

lemma deliver_tap: "deliver env (SDL_FINGERDOWN fx fy f) p s = Inr (h, s') \<Longrightarrow> tap_turn env s s'"
  using holdsD [OF holds_deliver_tap, of env fx fy f p s "(h, s')"] by simp

lemma deliver_trace: "deliver env e p s = Inr (h, s') \<Longrightarrow> \<exists>new. trace s' = trace s @ new"
  using deliver_turn [of env e p s h s'] by (auto simp: turn_def)

lemma walk_trace:
  "walk env e it s = Inr (h, s') \<Longrightarrow> it \<le> length (stack s) \<Longrightarrow> \<exists>new. trace s' = trace s @ new"
  using walk_walked [of env e it s h s'] by (auto simp: walked_def)

lemma after_handled_append:
  "after_handled (xs @ ys)
   = (if \<exists>i \<in> set xs. owner_handled i then after_handled xs @ ys else after_handled ys)"
  by (induction xs) auto

lemma release_before_or_after_handled:
  "i \<in> set cs \<Longrightarrow> is_Release (called i)
   \<Longrightarrow> i \<in> set (takeWhile (\<lambda>i. \<not> owner_handled i) cs) \<or> i \<in> set (after_handled cs)"
proof (induction cs)
  case Nil
  then show ?case by simp
next
  case (Cons c cs)
  show ?case
  proof (cases "owner_handled c")
    case True
    then have "\<not> is_Release (called c)" by (cases c rule: owner_handled.cases) simp_all
    with Cons.prems True show ?thesis by auto
  next
    case False
    with Cons show ?thesis by auto
  qed
qed

lemma walk_up:
  "walk env (SDL_FINGERUP fx fy f) it s = Inr (h, s') \<Longrightarrow> it \<le> length (stack s) \<Longrightarrow>
     zoneFingerId s'
       = (if (\<exists>j<it. stack s ! j \<notin> set (toPop s)) \<and> zoneFingerId s = f then - 1
          else zoneFingerId s)
     \<and> panelFingerId s' = (if released s s' then - 1 else panelFingerId s)
     \<and> (released s s' \<longrightarrow> panelFingerId s = f \<and> (\<exists>j<it. stack s ! j \<notin> set (toPop s)))
     \<and> ((\<exists>j<it. stack s ! j \<notin> set (toPop s)) \<and> panelFingerId s = f \<and> \<not> h \<longrightarrow> released s s')
     \<and> \<not> (\<exists>i \<in> set (after_handled (calls_between s s')). is_Release (called i))"
proof (induction it arbitrary: s)
  case 0
  then show ?case by (simp add: calls_between_def released_def)
next
  case (Suc it)
  from Suc.prems(2) have l: "it \<le> length (stack s)" by simp
  from Suc.prems(1) show ?case
  proof (cases rule: walk_SucE)
    case skip
    from skip(1) have eq: "(\<exists>j<Suc it. stack s ! j \<notin> set (toPop s)) = (\<exists>j<it. stack s ! j \<notin> set (toPop s))"
      by (auto simp: less_Suc_eq)
    show ?thesis unfolding eq by (rule Suc.IH [OF skip(2) l])
  next
    case (stop s1 trap)
    have V: "\<exists>j<Suc it. stack s ! j \<notin> set (toPop s)" using stop(1) by auto
    note u = deliver_up [OF stop(2)]
    note i = invoke_dest [OF stop(3)]
    from deliver_trace [OF stop(2)] obtain d where d: "trace s1 = trace s @ d" by auto
    let ?T = "Invocation (stack s ! it) TrapAllEvents trap (stack s1)"
    have c: "calls_between s s' = calls_between s s1 @ [?T]"
      using d i by (simp add: calls_between_def)
    have r: "released s s' = released s s1" unfolding released_def c by simp
    have a: "set (after_handled (calls_between s s'))
        \<subseteq> set (after_handled (calls_between s s1)) \<union> {?T}"
      unfolding c by (auto simp: after_handled_append)
    from u have u1: "zoneFingerId s1 = (if zoneFingerId s = f then - 1 else zoneFingerId s)"
      and u2: "panelFingerId s1 = (if released s s1 then - 1 else panelFingerId s)"
      and u3: "released s s1
          = (panelFingerId s = f \<and> \<not> (\<exists>i \<in> set (calls_between s s1). owner_handled i))"
      and u4: "(\<exists>i \<in> set (calls_between s s1). owner_handled i) \<longrightarrow> h"
      and u5: "\<not> (\<exists>i \<in> set (after_handled (calls_between s s1)). is_Release (called i))"
      by (simp_all add: up_turn_def)
    have z: "zoneFingerId s' = zoneFingerId s1" "panelFingerId s' = panelFingerId s1"
      using i by simp_all
    have A: "zoneFingerId s'
        = (if (\<exists>j<Suc it. stack s ! j \<notin> set (toPop s)) \<and> zoneFingerId s = f then - 1
           else zoneFingerId s)"
      unfolding z u1 using V by simp
    have B: "panelFingerId s' = (if released s s' then - 1 else panelFingerId s)"
      unfolding z r by (rule u2)
    have C: "released s s' \<longrightarrow> panelFingerId s = f \<and> (\<exists>j<Suc it. stack s ! j \<notin> set (toPop s))"
      using u3 r V by blast
    have D: "(\<exists>j<Suc it. stack s ! j \<notin> set (toPop s)) \<and> panelFingerId s = f \<and> \<not> h
        \<longrightarrow> released s s'"
      using u3 u4 r by blast
    have E: "\<not> (\<exists>i \<in> set (after_handled (calls_between s s')). is_Release (called i))"
      using a u5 by auto
    from A B C D E show ?thesis by (intro conjI)
  next
    case (continue s1 s2)
    have V: "\<exists>j<Suc it. stack s ! j \<notin> set (toPop s)" using continue(1) by auto
    note u = deliver_up [OF continue(2)]
    note i = invoke_dest [OF continue(3)]
    from deliver_trace [OF continue(2)] obtain d where d: "trace s1 = trace s @ d" by auto
    have l2: "it \<le> length (stack s2)"
      using l i deliver_turn [OF continue(2)] by (simp add: turn_def)
    note ih = Suc.IH [OF continue(4) l2]
    from walk_trace [OF continue(4) l2] obtain r where r: "trace s' = trace s2 @ r" by auto
    let ?T = "Invocation (stack s ! it) TrapAllEvents False (stack s1)"
    have c: "calls_between s s' = calls_between s s1 @ ?T # calls_between s2 s'"
      using d i r by (simp add: calls_between_def)
    from u have u1: "zoneFingerId s1 = (if zoneFingerId s = f then - 1 else zoneFingerId s)"
      and u2: "panelFingerId s1 = (if released s s1 then - 1 else panelFingerId s)"
      and u3: "released s s1
          = (panelFingerId s = f \<and> \<not> (\<exists>i \<in> set (calls_between s s1). owner_handled i))"
      and u4: "\<not> (\<exists>i \<in> set (calls_between s s1). owner_handled i)"
      by (simp_all add: up_turn_def)
    have z: "zoneFingerId s2 = zoneFingerId s1" "panelFingerId s2 = panelFingerId s1"
      using i by simp_all
    from ih have j1: "zoneFingerId s'
        = (if (\<exists>j<it. stack s2 ! j \<notin> set (toPop s2)) \<and> zoneFingerId s2 = f then - 1
           else zoneFingerId s2)"
      and j2: "panelFingerId s' = (if released s2 s' then - 1 else panelFingerId s2)"
      and j3: "released s2 s' \<longrightarrow> panelFingerId s2 = f"
      and i5: "\<not> (\<exists>i \<in> set (after_handled (calls_between s2 s')). is_Release (called i))"
      by blast+
    have i1: "zoneFingerId s' = zoneFingerId s1 \<or> zoneFingerId s' = - 1"
      using j1 unfolding z by metis
    have i1': "zoneFingerId s1 \<noteq> f \<longrightarrow> zoneFingerId s' = zoneFingerId s1"
      using j1 unfolding z by metis
    have i2: "panelFingerId s' = (if released s2 s' then - 1 else panelFingerId s1)"
      using j2 unfolding z .
    have i3: "released s2 s' \<longrightarrow> panelFingerId s1 = f"
      using j3 unfolding z .
    have rr: "released s s' = (released s s1 \<or> released s2 s')"
      unfolding released_def c by auto
    have ah: "after_handled (calls_between s s') = after_handled (calls_between s2 s')"
      unfolding c using u4 by (simp add: after_handled_append)
    have A0: "zoneFingerId s' = (if zoneFingerId s = f then - 1 else zoneFingerId s)"
    proof (cases "zoneFingerId s = f")
      case True
      with u1 have "zoneFingerId s1 = - 1" by simp
      with i1 True show ?thesis by auto
    next
      case False
      with u1 have "zoneFingerId s1 = zoneFingerId s" by simp
      with i1' False show ?thesis by simp
    qed
    have A: "zoneFingerId s'
        = (if (\<exists>j<Suc it. stack s ! j \<notin> set (toPop s)) \<and> zoneFingerId s = f then - 1
           else zoneFingerId s)"
      unfolding A0 using V by simp
    have B: "panelFingerId s' = (if released s s' then - 1 else panelFingerId s)"
    proof (cases "released s2 s'")
      case True
      with i2 rr show ?thesis by simp
    next
      case False
      with i2 rr u2 show ?thesis by simp
    qed
    have C0: "released s s' \<longrightarrow> panelFingerId s = f"
    proof
      assume "released s s'"
      with rr have "released s s1 \<or> released s2 s'" by simp
      then show "panelFingerId s = f"
      proof
        assume "released s s1"
        with u3 show ?thesis by simp
      next
        assume "released s2 s'"
        with i3 have p: "panelFingerId s1 = f" by simp
        show ?thesis
        proof (cases "released s s1")
          case True
          with u3 show ?thesis by simp
        next
          case False
          with u2 p show ?thesis by simp
        qed
      qed
    qed
    have C: "released s s' \<longrightarrow> panelFingerId s = f \<and> (\<exists>j<Suc it. stack s ! j \<notin> set (toPop s))"
      using C0 V by blast
    have D: "(\<exists>j<Suc it. stack s ! j \<notin> set (toPop s)) \<and> panelFingerId s = f \<and> \<not> h
        \<longrightarrow> released s s'"
      using u3 u4 rr by blast
    have E: "\<not> (\<exists>i \<in> set (after_handled (calls_between s s')). is_Release (called i))"
      using i5 ah by simp
    from A B C D E show ?thesis by (intro conjI)
  qed
qed

lemma walk_tap:
  "walk env (SDL_FINGERDOWN fx fy f) it s = Inr (h, s') \<Longrightarrow> it \<le> length (stack s) \<Longrightarrow>
     (click_counts (calls_between s s') = [] \<longrightarrow> lastTap s' = lastTap s)
     \<and> (\<forall>n. click_counts (calls_between s s') = [n] \<longrightarrow>
           n = (if 500 < lastTap s' - lastTap s then 1 else 2)
           \<and> (\<exists>t. lastTap s' = SDL_GetTicks env t))"
proof (induction it arbitrary: s)
  case 0
  then show ?case by (simp add: calls_between_def)
next
  case (Suc it)
  from Suc.prems(2) have l: "it \<le> length (stack s)" by simp
  from Suc.prems(1) show ?case
  proof (cases rule: walk_SucE)
    case skip
    from Suc.IH [OF skip(2) l] show ?thesis .
  next
    case (stop s1 trap)
    note u = deliver_tap [OF stop(2)]
    note i = invoke_dest [OF stop(3)]
    from deliver_trace [OF stop(2)] obtain d where d: "trace s1 = trace s @ d" by auto
    have c: "click_counts (calls_between s s') = click_counts (calls_between s s1)"
      using d i by (simp add: calls_between_def click_counts_append)
    have t: "lastTap s' = lastTap s1" using i by simp
    show ?thesis using u unfolding tap_turn_def c t by auto
  next
    case (continue s1 s2)
    note u = deliver_tap [OF continue(2)]
    note i = invoke_dest [OF continue(3)]
    from deliver_trace [OF continue(2)] obtain d where d: "trace s1 = trace s @ d" by auto
    have l2: "it \<le> length (stack s2)"
      using l i deliver_turn [OF continue(2)] by (simp add: turn_def)
    note ih = Suc.IH [OF continue(4) l2]
    from walk_trace [OF continue(4) l2] obtain r where r: "trace s' = trace s2 @ r" by auto
    have c: "click_counts (calls_between s s')
        = click_counts (calls_between s s1) @ click_counts (calls_between s2 s')"
      using d i r by (simp add: calls_between_def click_counts_append)
    have t: "lastTap s2 = lastTap s1" using i by simp
    from ih t have i1: "click_counts (calls_between s2 s') = [] \<longrightarrow> lastTap s' = lastTap s1"
      and i2: "\<forall>n. click_counts (calls_between s2 s') = [n] \<longrightarrow>
           n = (if 500 < lastTap s' - lastTap s1 then 1 else 2)
           \<and> (\<exists>t. lastTap s' = SDL_GetTicks env t)"
      by simp_all
    from u consider (none) "click_counts (calls_between s s1) = []" "lastTap s1 = lastTap s"
      | (one) "click_counts (calls_between s s1) = [if 500 < lastTap s1 - lastTap s then 1 else 2]"
          "\<exists>t. lastTap s1 = SDL_GetTicks env t"
      by (auto simp: tap_turn_def)
    then show ?thesis
    proof cases
      case none
      with i1 i2 show ?thesis unfolding c by simp
    next
      case one
      have "click_counts (calls_between s s') \<noteq> []" unfolding c one by simp
      moreover have "n = (if 500 < lastTap s' - lastTap s then 1 else 2)
           \<and> (\<exists>t. lastTap s' = SDL_GetTicks env t)"
        if "click_counts (calls_between s s') = [n]" for n
      proof -
        from that have e: "click_counts (calls_between s2 s') = []"
          and n: "n = (if 500 < lastTap s1 - lastTap s then 1 else 2)"
          unfolding c one by simp_all
        from e i1 have "lastTap s' = lastTap s1" by simp
        with n one(2) show ?thesis by simp
      qed
      ultimately show ?thesis by blast
    qed
  qed
qed

lemma PushOrPop_keeps [simp]:
  "lastTap (PushOrPop s) = lastTap s" "zoneFingerId (PushOrPop s) = zoneFingerId s"
  "panelFingerId (PushOrPop s) = panelFingerId s" "wired (PushOrPop s) = wired s"
  by (simp_all add: PushOrPop_def)

subsection \<open>Calls that return\<close>

text \<open>
  With no null handle in the stack and panels that push no null handle, dispatching,
  stepping and drawing return: the error of the model is not reached.
\<close>

lemma returns_Inr_eq: "returns (Inr x) Q = Q x"
  by (simp add: returns_def)

lemma returns_and_then: "returns m (\<lambda>x. returns (f x) Q) \<Longrightarrow> returns (and_then m f) Q"
  by (cases m) (simp_all add: returns_def and_then_def)

lemma returns_if:
  "(b \<Longrightarrow> returns m Q) \<Longrightarrow> (\<not> b \<Longrightarrow> returns n Q) \<Longrightarrow> returns (if b then m else n) Q"
  by simp

lemma returnsD: "returns m Q \<Longrightarrow> \<exists>x. m = Inr x \<and> Q x"
  by (cases m) (simp_all add: returns_def)

lemma apply_requests_returns:
  "ReqPush 0 \<notin> set rs \<Longrightarrow> \<exists>s'. apply_requests rs s = Inr s'"
proof (induction rs arbitrary: s)
  case Nil
  then show ?case by simp
next
  case (Cons r rs)
  from Cons.prems have "\<exists>s1. apply_request r s = Inr s1"
    by (cases r) (auto simp: Push_def)
  then obtain s1 where "apply_request r s = Inr s1" ..
  moreover from Cons.prems Cons.IH [of s1] obtain s' where "apply_requests rs s1 = Inr s'"
    by auto
  ultimately show ?case by auto
qed

lemma returns_invoke:
  assumes "polite env" "p \<noteq> 0" and "\<And>r s'. stack s' = stack s \<Longrightarrow> Q (r, s')"
  shows "returns (invoke env p c s) Q"
proof -
  obtain r rs where rr: "respond env s p c = (r, rs)" by (cases "respond env s p c")
  with assms(1) have "ReqPush 0 \<notin> set rs" by (metis polite_def snd_conv)
  from apply_requests_returns [OF this]
  obtain s' where a: "apply_requests rs (s\<lparr>trace := trace s @ [Invocation p c r (stack s)]\<rparr>) = Inr s'"
    by blast
  with rr assms(2) have i: "invoke env p c s = Inr (r, s')" by (simp add: invoke_def)
  from invoke_dest [OF i] have "stack s' = stack s" by simp
  with assms(3) i show ?thesis by (simp add: returns_def)
qed

lemma returns_deliver:
  assumes "polite env" "p \<noteq> 0"
  shows "returns (deliver env e p s) (\<lambda>(h, s'). stack s' = stack s)"
  using assms
  apply (cases e; simp only: deliver.simps Let_def)
  apply ((rule returns_and_then | (rule returns_invoke, assumption, assumption) | rule returns_if
      | simp only: returns_Inr_eq prod.case | (simp; fail))+)
  done

lemma walk_returns:
  "polite env \<Longrightarrow> 0 \<notin> set (stack s) \<Longrightarrow> it \<le> length (stack s)
   \<Longrightarrow> \<exists>h s'. walk env e it s = Inr (h, s')"
proof (induction it arbitrary: s)
  case 0
  show ?case by auto
next
  case (Suc it)
  let ?p = "stack s ! it"
  from Suc.prems have p: "?p \<noteq> 0" by (metis Suc_le_lessD nth_mem)
  show ?case
  proof (cases "count_list (toPop s) ?p \<noteq> 0")
    case True
    with Suc.IH [of s] Suc.prems show ?thesis by simp
  next
    case False
    from returnsD [OF returns_deliver [OF Suc.prems(1) p, of e s]]
    obtain h s1 where d: "deliver env e ?p s = Inr (h, s1)" "stack s1 = stack s" by auto
    from returnsD [OF returns_invoke [OF Suc.prems(1) p, of s1 "\<lambda>(r, s'). stack s' = stack s1" TrapAllEvents]]
    obtain trap s2 where t: "invoke env ?p TrapAllEvents s1 = Inr (trap, s2)" "stack s2 = stack s1"
      by auto
    from Suc.IH [of s2] Suc.prems d(2) t(2)
    obtain h' s' where "walk env e it s2 = Inr (h', s')" by auto
    with False d t show ?thesis by (auto simp: and_then_def Let_def)
  qed
qed

lemma Handle_returns:
  "polite env \<Longrightarrow> 0 \<notin> set (stack s) \<Longrightarrow> \<exists>h s'. Handle env e s = Inr (h, s')"
  using walk_returns [of env s "length (stack s)" e] by (auto simp: Handle_def and_then_def)

lemma invoke_each_returns:
  "polite env \<Longrightarrow> 0 \<notin> set ps \<Longrightarrow> \<exists>s'. invoke_each env c ps s = Inr s' \<and> stack s' = stack s"
proof (induction ps arbitrary: s)
  case Nil
  show ?case by simp
next
  case (Cons p ps)
  from Cons.prems have p: "p \<noteq> 0" by auto
  from returnsD [OF returns_invoke [OF Cons.prems(1) p, of s "\<lambda>(r, s'). stack s' = stack s" c]]
  obtain u s1 where i: "invoke env p c s = Inr (u, s1)" "stack s1 = stack s" by auto
  from Cons.IH [of s1] Cons.prems obtain s' where "invoke_each env c ps s1 = Inr s'"
    "stack s' = stack s1"
    by auto
  with i show ?case by (simp add: and_then_def)
qed

lemma find_full_screen_returns:
  "polite env \<Longrightarrow> 0 \<notin> set (stack s) \<Longrightarrow> it \<le> length (stack s)
   \<Longrightarrow> \<exists>k s'. find_full_screen env it s = Inr (k, s') \<and> stack s' = stack s"
proof (induction it arbitrary: s)
  case 0
  show ?case by simp
next
  case (Suc it)
  let ?p = "stack s ! it"
  from Suc.prems have p: "?p \<noteq> 0" by (metis Suc_le_lessD nth_mem)
  from returnsD [OF returns_invoke [OF Suc.prems(1) p, of s "\<lambda>(r, s'). stack s' = stack s" IsFullScreen]]
  obtain full s1 where i: "invoke env ?p IsFullScreen s = Inr (full, s1)" "stack s1 = stack s"
    by auto
  from Suc.IH [of s1] Suc.prems i(2)
  obtain k s' where "find_full_screen env it s1 = Inr (k, s')" "stack s' = stack s1" by auto
  with i show ?case by (auto simp: and_then_def)
qed

lemma DrawAll_returns:
  assumes "polite env" "0 \<notin> set (stack s)"
  shows "\<exists>s'. DrawAll env s = Inr s'"
proof -
  from invoke_each_returns [OF assms, of ClearZones s]
  obtain s1 where 1: "invoke_each env ClearZones (stack s) s = Inr s1" "stack s1 = stack s"
    by auto
  from find_full_screen_returns [of env s1 "length (stack s1)"] assms 1(2)
  obtain k s2 where 2: "find_full_screen env (length (stack s1)) s1 = Inr (k, s2)"
    "stack s2 = stack s1"
    by auto
  have "0 \<notin> set (drop k (stack s2))" using assms(2) 1(2) 2(2) by (auto dest: in_set_dropD)
  from invoke_each_returns [OF assms(1) this, of Draw s2]
  obtain s' where "invoke_each env Draw (drop k (stack s2)) s2 = Inr s'" by auto
  with 1 2 show ?thesis by (simp add: DrawAll_def and_then_def)
qed

lemma StepAll_returns:
  assumes "polite env" "0 \<notin> set (stack s)"
  shows "\<exists>s'. StepAll env s = Inr s'"
proof -
  have "0 \<notin> set (stack (PushOrPop s))" using set_stack_PushOrPop [of s] assms(2) by auto
  from invoke_each_returns [OF assms(1) this, of Step "PushOrPop s"]
  show ?thesis by (auto simp: StepAll_def Let_def)
qed

section \<open>The claims\<close>

subsection \<open>C1: what Reset clears\<close>

text \<open>
  C1, as the code has it. After \<open>Reset\<close> the controller is empty (\<open>IsEmpty\<close> is true),
  \<open>IsDone\<close> is false and the pop queue is empty; the zone-owning finger, the drag-owning
  finger and the last-tap timestamp are what they were before the call.
\<close>

theorem Reset_clears_panels_only:
  "IsEmpty (Reset s) \<and> \<not> IsDone (Reset s) \<and> toPop (Reset s) = []
   \<and> zoneFingerId (Reset s) = zoneFingerId s
   \<and> panelFingerId (Reset s) = panelFingerId s
   \<and> lastTap (Reset s) = lastTap s"
  by (simp add: Reset_def IsEmpty_def IsDone_def)

text \<open>
  C1 as stated fails: on a controller holding one panel whose zone claims a press, a
  touch-down of finger 7 is handled and makes 7 the zone-owning finger, and it still is
  after \<open>Reset\<close>.
\<close>

theorem Reset_keeps_zone_finger:
  "map_sum id (\<lambda>(h, s). (h, zoneFingerId s, zoneFingerId (Reset s)))
     (Handle zone_panels (SDL_FINGERDOWN (1 / 2) (1 / 2) 7) (ui_empty\<lparr>stack := [1]\<rparr>))
   = Inr (True, 7, 7)"
  by (simp add: Handle_def zone_panels_def quiet_def ui_empty_def and_then_def invoke_def
      trunc_def PushOrPop_def Reset_def)

subsection \<open>C2: which occurrence the apply step erases\<close>

text \<open>
  C2, as the code has it. The apply step appends the non-null handles of the push
  queue, then for each identity of the pop queue, in order, erases one occurrence from
  the stack if there is one: the lowest. A stack in which the identity does not occur
  is left as it is.
\<close>

theorem PushOrPop_erases_lowest:
  "stack (PushOrPop s) = fold remove1 (toPop s) (stack s @ filter (\<lambda>p. p \<noteq> 0) (toPush s))
   \<and> (\<forall>p xs ys. p \<notin> set xs \<longrightarrow> erase_first p (xs @ p # ys) = xs @ ys)
   \<and> (\<forall>p xs. p \<notin> set xs \<longrightarrow> erase_first p xs = xs)"
  by (simp add: stack_PushOrPop erase_first_lowest erase_first_absent)

theorem PushOrPop_erases_lowest_witness:
  "stack (PushOrPop (ui_empty\<lparr>stack := [1, 2, 3], toPush := [4, 0], toPop := [2, 5]\<rparr>)) = [1, 3, 4]
   \<and> (2 \<notin> set [1 :: nat]) \<and> erase_first 2 ([1] @ 2 # [3, 2]) = [1] @ [3, 2]
   \<and> (5 \<notin> set [1, 3 :: nat]) \<and> erase_first 5 [1, 3] = [1, 3]"
  using PushOrPop_erases_lowest [of "ui_empty\<lparr>stack := [1, 2, 3], toPush := [4, 0], toPop := [2, 5]\<rparr>"]
  by (simp add: ui_empty_def)

text \<open>
  C2 as stated fails: with panel 1 at the bottom and at the top of the stack and one
  request to pop it, the occurrence at the bottom is erased and the one at the top
  stays; erasing the topmost would have left \<open>[1, 2]\<close>.
\<close>

theorem PushOrPop_keeps_topmost:
  "stack (PushOrPop (ui_empty\<lparr>stack := [1, 2, 1], toPop := [1]\<rparr>)) = [2, 1]
   \<and> stack (PushOrPop (ui_empty\<lparr>stack := [1, 2, 1], toPop := [1]\<rparr>)) \<noteq> [1, 2]"
  by (simp add: PushOrPop_def ui_empty_def)

subsection \<open>C3: PopThrough\<close>

text \<open>
  C3, as the code has it. When \<open>P\<close> is in the stack, \<open>PopThrough P\<close> appends to the pop
  queue the panels above the topmost \<open>P\<close>, from the top down, and then \<open>P\<close>; if no panel
  occurs twice in the stack and no pop was waiting, the next apply step leaves the
  panels below \<open>P\<close>, in their order, followed by the panels that were waiting to be
  pushed. When \<open>P\<close> is not in the stack, \<open>PopThrough P\<close> appends every panel of the stack,
  from the top down; if no pop was waiting, the next apply step leaves only the panels
  that were waiting to be pushed.
\<close>

theorem PopThrough_removes:
  "(stack s = lower @ P # upper \<and> P \<notin> set upper
      \<longrightarrow> toPop (PopThrough P s) = toPop s @ rev upper @ [P])
   \<and> (stack s = lower @ P # upper \<and> distinct (stack s) \<and> toPop s = []
      \<longrightarrow> stack (PushOrPop (PopThrough P s)) = lower @ filter (\<lambda>p. p \<noteq> 0) (toPush s))
   \<and> (P \<notin> set (stack s) \<longrightarrow> toPop (PopThrough P s) = toPop s @ rev (stack s))
   \<and> (P \<notin> set (stack s) \<and> toPop s = []
      \<longrightarrow> stack (PushOrPop (PopThrough P s)) = filter (\<lambda>p. p \<noteq> 0) (toPush s))"
  using toPop_PopThrough_found [of s lower P upper] PopThrough_apply_found [of s lower P upper]
    toPop_PopThrough_absent [of P s] PopThrough_apply_absent [of P s]
  by blast

theorem PopThrough_removes_witness:
  "stack (ui_empty\<lparr>stack := [1, 2, 3, 4]\<rparr>) = [1] @ 2 # [3, 4] \<and> 2 \<notin> set [3, 4 :: nat]
   \<and> distinct (stack (ui_empty\<lparr>stack := [1, 2, 3, 4]\<rparr>))
   \<and> toPop (ui_empty\<lparr>stack := [1, 2, 3, 4]\<rparr>) = []
   \<and> toPop (PopThrough 2 (ui_empty\<lparr>stack := [1, 2, 3, 4]\<rparr>)) = [4, 3, 2]
   \<and> stack (PushOrPop (PopThrough 2 (ui_empty\<lparr>stack := [1, 2, 3, 4]\<rparr>))) = [1]
   \<and> 5 \<notin> set (stack (ui_empty\<lparr>stack := [1, 2, 3, 4]\<rparr>))
   \<and> toPop (PopThrough 5 (ui_empty\<lparr>stack := [1, 2, 3, 4]\<rparr>)) = [4, 3, 2, 1]
   \<and> stack (PushOrPop (PopThrough 5 (ui_empty\<lparr>stack := [1, 2, 3, 4]\<rparr>))) = []"
  using PopThrough_removes [of "ui_empty\<lparr>stack := [1, 2, 3, 4]\<rparr>" "[1]" 2 "[3, 4]"]
    PopThrough_removes [of "ui_empty\<lparr>stack := [1, 2, 3, 4]\<rparr>" "[]" 5 "[]"]
  by (simp add: ui_empty_def)

text \<open>
  C3 as stated fails where \<open>P\<close> is absent: with panels 1 and 2 in the stack,
  \<open>PopThrough 3\<close> puts both in the pop queue and the apply step empties the stack; the
  stack is not left as it was. It also fails where a panel occurs twice: with panel 1
  at the bottom and at the top, \<open>PopThrough 1\<close> queues the one identity, and the apply
  step erases the occurrence at the bottom, so what was below the named panel is not
  left as it was.
\<close>

theorem PopThrough_absent_empties:
  "toPop (PopThrough 3 (ui_empty\<lparr>stack := [1, 2]\<rparr>)) = [2, 1]
   \<and> stack (PushOrPop (PopThrough 3 (ui_empty\<lparr>stack := [1, 2]\<rparr>))) = []
   \<and> stack (PushOrPop (PopThrough 3 (ui_empty\<lparr>stack := [1, 2]\<rparr>))) \<noteq> [1, 2]
   \<and> toPop (PopThrough 1 (ui_empty\<lparr>stack := [1, 2, 1]\<rparr>)) = [1]
   \<and> stack (PushOrPop (PopThrough 1 (ui_empty\<lparr>stack := [1, 2, 1]\<rparr>))) = [2, 1]
   \<and> stack (PushOrPop (PopThrough 1 (ui_empty\<lparr>stack := [1, 2, 1]\<rparr>))) \<noteq> [1, 2]"
  by (simp add: PushOrPop_def PopThrough_def ui_empty_def)

subsection \<open>C4: the owners after a touch-up\<close>

text \<open>
  C4, as the code has it. For a touch-up of finger \<open>f\<close> dispatched through \<open>Handle\<close>,
  where a panel takes a turn if some panel of the stack is not in the pop queue:
  after the call the zone-owning finger is none if \<open>f\<close> was the zone-owning finger and a
  panel takes a turn, whatever the panels returned, and is what it was otherwise; the
  drag-owning finger is none if \<open>Release\<close> was called on some panel during the call,
  whatever it returned, and is what it was otherwise. \<open>Release\<close> is called only if \<open>f\<close>
  was the drag-owning finger and a panel takes a turn; it is called whenever, besides,
  the call returns unhandled; and it is never called after a zone release or a
  finger-up notification has returned true, so that the drag-owning finger is what it
  was if no \<open>Release\<close> was called before the first of those. In one panel's turn \<open>Release\<close> is called
  exactly when \<open>f\<close> is the drag-owning finger and neither of those two returned true. So
  the drag-owning finger stays when a zone release or a finger-up notification handles
  the event first, and neither owner changes when no panel takes a turn.
\<close>

theorem touch_up_clears_owner:
  "(Handle env (SDL_FINGERUP fx fy f) s = Inr (h, s') \<longrightarrow>
     zoneFingerId s'
       = (if (\<exists>p \<in> set (stack s). p \<notin> set (toPop s)) \<and> zoneFingerId s = f then - 1
          else zoneFingerId s)
     \<and> panelFingerId s' = (if released s s' then - 1 else panelFingerId s)
     \<and> (released s s' \<longrightarrow> panelFingerId s = f \<and> (\<exists>p \<in> set (stack s). p \<notin> set (toPop s)))
     \<and> ((\<exists>p \<in> set (stack s). p \<notin> set (toPop s)) \<and> panelFingerId s = f \<and> \<not> h
        \<longrightarrow> released s s')
     \<and> \<not> (\<exists>i \<in> set (after_handled (calls_between s s')). is_Release (called i))
     \<and> (\<not> (\<exists>i \<in> set (takeWhile (\<lambda>i. \<not> owner_handled i) (calls_between s s')).
             is_Release (called i))
        \<longrightarrow> panelFingerId s' = panelFingerId s)
     \<and> ((\<exists>p \<in> set (stack s). p \<notin> set (toPop s)) \<and> zoneFingerId s = f
        \<longrightarrow> zoneFingerId s' = - 1)
     \<and> ((\<exists>p \<in> set (stack s). p \<notin> set (toPop s)) \<and> panelFingerId s = f \<and> \<not> h
        \<longrightarrow> panelFingerId s' = - 1)
     \<and> (panelFingerId s = f \<and> (\<exists>i \<in> set (calls_between s s'). is_Release (called i))
        \<longrightarrow> panelFingerId s' = - 1))
   \<and> (deliver env (SDL_FINGERUP fx fy f) p t = Inr (h1, t1) \<longrightarrow> up_turn f h1 t t1)"
proof (rule conjI; rule impI)
  assume "deliver env (SDL_FINGERUP fx fy f) p t = Inr (h1, t1)"
  then show "up_turn f h1 t t1" by (rule deliver_up)
next
  assume "Handle env (SDL_FINGERUP fx fy f) s = Inr (h, s')"
  then obtain w where w: "walk env (SDL_FINGERUP fx fy f) (length (stack s)) s = Inr (h, w)"
    "s' = PushOrPop w"
    by (auto simp: Handle_Inr)
  let ?V = "\<exists>p \<in> set (stack s). p \<notin> set (toPop s)"
  have v: "?V = (\<exists>j<length (stack s). stack s ! j \<notin> set (toPop s))"
    by (metis in_set_conv_nth)
  have c: "calls_between s s' = calls_between s w" using w(2) by simp
  have r: "released s s' = released s w" unfolding released_def c ..
  have z: "zoneFingerId s' = zoneFingerId w" "panelFingerId s' = panelFingerId w"
    using w(2) by simp_all
  from walk_up [OF w(1)]
  have N1: "zoneFingerId s' = (if ?V \<and> zoneFingerId s = f then - 1 else zoneFingerId s)"
    and N2: "panelFingerId s' = (if released s s' then - 1 else panelFingerId s)"
    and N3: "released s s' \<longrightarrow> panelFingerId s = f \<and> ?V"
    and N4: "?V \<and> panelFingerId s = f \<and> \<not> h \<longrightarrow> released s s'"
    and N5: "\<not> (\<exists>i \<in> set (after_handled (calls_between s s')). is_Release (called i))"
    unfolding v c r z by blast+
  have N6: "\<not> (\<exists>i \<in> set (takeWhile (\<lambda>i. \<not> owner_handled i) (calls_between s s')).
             is_Release (called i))
      \<longrightarrow> panelFingerId s' = panelFingerId s"
  proof
    assume b: "\<not> (\<exists>i \<in> set (takeWhile (\<lambda>i. \<not> owner_handled i) (calls_between s s')).
        is_Release (called i))"
    have "\<not> released s s'"
    proof
      assume "released s s'"
      then obtain i where "i \<in> set (calls_between s s')" "is_Release (called i)"
        by (auto simp: released_def)
      from release_before_or_after_handled [OF this] this(2) b N5 show False by blast
    qed
    with N2 show "panelFingerId s' = panelFingerId s" by simp
  qed
  have O1: "?V \<and> zoneFingerId s = f \<longrightarrow> zoneFingerId s' = - 1"
    using N1 by simp
  have O2: "?V \<and> panelFingerId s = f \<and> \<not> h \<longrightarrow> panelFingerId s' = - 1"
    using N2 N4 by simp
  have O3: "panelFingerId s = f \<and> (\<exists>i \<in> set (calls_between s s'). is_Release (called i))
      \<longrightarrow> panelFingerId s' = - 1"
    using N2 by (simp add: released_def)
  from N1 N2 N3 N4 N5 N6 O1 O2 O3
  show "zoneFingerId s' = (if ?V \<and> zoneFingerId s = f then - 1 else zoneFingerId s)
     \<and> panelFingerId s' = (if released s s' then - 1 else panelFingerId s)
     \<and> (released s s' \<longrightarrow> panelFingerId s = f \<and> ?V)
     \<and> (?V \<and> panelFingerId s = f \<and> \<not> h \<longrightarrow> released s s')
     \<and> \<not> (\<exists>i \<in> set (after_handled (calls_between s s')). is_Release (called i))
     \<and> (\<not> (\<exists>i \<in> set (takeWhile (\<lambda>i. \<not> owner_handled i) (calls_between s s')).
             is_Release (called i))
        \<longrightarrow> panelFingerId s' = panelFingerId s)
     \<and> (?V \<and> zoneFingerId s = f \<longrightarrow> zoneFingerId s' = - 1)
     \<and> (?V \<and> panelFingerId s = f \<and> \<not> h \<longrightarrow> panelFingerId s' = - 1)
     \<and> (panelFingerId s = f \<and> (\<exists>i \<in> set (calls_between s s'). is_Release (called i))
        \<longrightarrow> panelFingerId s' = - 1)"
    by (intro conjI)
qed

theorem touch_up_clears_owner_witness:
  "Handle quiet (SDL_FINGERUP (1 / 2) (1 / 2) 3)
     (ui_empty\<lparr>stack := [1], zoneFingerId := 3, panelFingerId := 3\<rparr>)
   = Inr (False, ui_empty\<lparr>stack := [1],
       trace := [Invocation 1 (ZoneMouseUp 0 0) False [1], Invocation 1 (FingerUp 0 0 3) False [1],
                 Invocation 1 (Release 0 0) False [1], Invocation 1 TrapAllEvents False [1]]\<rparr>)
   \<and> (\<exists>p \<in> set (stack (ui_empty\<lparr>stack := [1], zoneFingerId := 3, panelFingerId := 3\<rparr>)).
         p \<notin> set (toPop (ui_empty\<lparr>stack := [1], zoneFingerId := 3, panelFingerId := 3\<rparr>)))
   \<and> released (ui_empty\<lparr>stack := [1], zoneFingerId := 3, panelFingerId := 3\<rparr>)
       (ui_empty\<lparr>stack := [1],
       trace := [Invocation 1 (ZoneMouseUp 0 0) False [1], Invocation 1 (FingerUp 0 0 3) False [1],
                 Invocation 1 (Release 0 0) False [1], Invocation 1 TrapAllEvents False [1]]\<rparr>)
   \<and> zoneFingerId (ui_empty\<lparr>stack := [1],
       trace := [Invocation 1 (ZoneMouseUp 0 0) False [1], Invocation 1 (FingerUp 0 0 3) False [1],
                 Invocation 1 (Release 0 0) False [1], Invocation 1 TrapAllEvents False [1]]\<rparr>) = - 1
   \<and> panelFingerId (ui_empty\<lparr>stack := [1],
       trace := [Invocation 1 (ZoneMouseUp 0 0) False [1], Invocation 1 (FingerUp 0 0 3) False [1],
                 Invocation 1 (Release 0 0) False [1], Invocation 1 TrapAllEvents False [1]]\<rparr>) = - 1
   \<and> Handle tap_panels (SDL_FINGERUP (1 / 2) (1 / 2) 3)
       (ui_empty\<lparr>stack := [1], zoneFingerId := 3, panelFingerId := 3\<rparr>)
     = Inr (True, ui_empty\<lparr>stack := [1], panelFingerId := 3,
         trace := [Invocation 1 (ZoneMouseUp 0 0) False [1],
                   Invocation 1 (FingerUp 0 0 3) True [1],
                   Invocation 1 TrapAllEvents False [1]]\<rparr>)
   \<and> \<not> released (ui_empty\<lparr>stack := [1], zoneFingerId := 3, panelFingerId := 3\<rparr>)
       (ui_empty\<lparr>stack := [1], panelFingerId := 3,
         trace := [Invocation 1 (ZoneMouseUp 0 0) False [1],
                   Invocation 1 (FingerUp 0 0 3) True [1],
                   Invocation 1 TrapAllEvents False [1]]\<rparr>)
   \<and> up_turn 3 True (ui_empty\<lparr>stack := [1], zoneFingerId := 3, panelFingerId := 3\<rparr>)
       (ui_empty\<lparr>stack := [1], panelFingerId := 3,
         trace := [Invocation 1 (ZoneMouseUp 0 0) False [1],
                   Invocation 1 (FingerUp 0 0 3) True [1]]\<rparr>)"
proof -
  let ?u = "ui_empty\<lparr>stack := [1], zoneFingerId := 3, panelFingerId := 3\<rparr>"
  let ?u' = "ui_empty\<lparr>stack := [1],
       trace := [Invocation 1 (ZoneMouseUp 0 0) False [1], Invocation 1 (FingerUp 0 0 3) False [1],
                 Invocation 1 (Release 0 0) False [1], Invocation 1 TrapAllEvents False [1]]\<rparr>"
  let ?k = "ui_empty\<lparr>stack := [1], panelFingerId := 3,
         trace := [Invocation 1 (ZoneMouseUp 0 0) False [1],
                   Invocation 1 (FingerUp 0 0 3) True [1],
                   Invocation 1 TrapAllEvents False [1]]\<rparr>"
  let ?d = "ui_empty\<lparr>stack := [1], panelFingerId := 3,
         trace := [Invocation 1 (ZoneMouseUp 0 0) False [1],
                   Invocation 1 (FingerUp 0 0 3) True [1]]\<rparr>"
  have H: "Handle quiet (SDL_FINGERUP (1 / 2) (1 / 2) 3) ?u = Inr (False, ?u')"
    by (simp add: Handle_def quiet_def ui_empty_def and_then_def invoke_def trunc_def
        PushOrPop_def)
  have K: "Handle tap_panels (SDL_FINGERUP (1 / 2) (1 / 2) 3) ?u = Inr (True, ?k)"
    by (simp add: Handle_def tap_panels_def quiet_def ui_empty_def and_then_def invoke_def
        trunc_def PushOrPop_def)
  have D: "deliver tap_panels (SDL_FINGERUP (1 / 2) (1 / 2) 3) 1 ?u = Inr (True, ?d)"
    by (simp add: tap_panels_def quiet_def ui_empty_def and_then_def invoke_def trunc_def)
  have v: "\<exists>p \<in> set (stack ?u). p \<notin> set (toPop ?u)" by (simp add: ui_empty_def)
  have r: "released ?u ?u'" by (simp add: released_def calls_between_def ui_empty_def)
  have n: "\<not> released ?u ?k" by (simp add: released_def calls_between_def ui_empty_def)
  from touch_up_clears_owner [where env = quiet and fx = "1 / 2" and fy = "1 / 2" and f = 3
      and s = ?u and h = False and s' = ?u'] H v r
  have 1: "zoneFingerId ?u' = - 1" "panelFingerId ?u' = - 1"
    by (simp_all add: ui_empty_def)
  from touch_up_clears_owner [where env = tap_panels and fx = "1 / 2" and fy = "1 / 2"
      and f = 3 and p = 1 and t = ?u and ?h1.0 = True and ?t1.0 = ?d] D
  have 2: "up_turn 3 True ?u ?d" by blast
  from H v r 1 K n 2 show ?thesis by (intro conjI)
qed

text \<open>
  C4 as stated fails. A panel that handles the click of a touch-down makes finger 3
  the drag-owning finger; when the same panel handles the finger-up notification of the
  touch-up of finger 3, \<open>Release\<close> is not reached and finger 3 is still the
  drag-owning finger after the call. And with no panel in the stack, a touch-up of the
  zone-owning finger leaves it the zone-owning finger.
\<close>

theorem touch_up_keeps_owner:
  "map_sum id (\<lambda>(h, s). (h, panelFingerId s))
     (and_then (Handle tap_panels (SDL_FINGERDOWN (1 / 2) (1 / 2) 3) (ui_empty\<lparr>stack := [1]\<rparr>))
        (\<lambda>(h, s). Handle tap_panels (SDL_FINGERUP (1 / 2) (1 / 2) 3) s))
   = Inr (True, 3)
   \<and> map_sum id (\<lambda>(h, s). (h, zoneFingerId s))
     (Handle quiet (SDL_FINGERUP (1 / 2) (1 / 2) 3) (ui_empty\<lparr>zoneFingerId := 3\<rparr>))
   = Inr (False, 3)"
  by (simp add: Handle_def tap_panels_def quiet_def ui_empty_def and_then_def invoke_def
      trunc_def PushOrPop_def)

subsection \<open>C5: the click count of a touch-down\<close>

text \<open>
  C5, as the code has it. In one panel's turn for a touch-down, either no click is
  delivered and the last-tap timestamp stays, or one click is delivered, the timestamp
  becomes the clock as read just before that call (whatever the click returns), and the
  click count is 1 if the clock is more than 500 ms past the old timestamp, in 32-bit
  unsigned arithmetic, and 2 otherwise. So for two touch-downs that each deliver one
  click, with nothing changing the timestamp between them: the second click has count 2
  when the second clock reading is at most 500 ms past the first, count 1 when it is
  more than 500 ms past.
\<close>

theorem touch_down_click_count:
  "(deliver env (SDL_FINGERDOWN fx fy f) p s = Inr (h, s') \<longrightarrow> tap_turn env s s')
   \<and> (Handle env (SDL_FINGERDOWN fx fy f) s = Inr (h, s1)
       \<and> click_counts (calls_between s s1) = [n1]
       \<and> lastTap t1 = lastTap s1
       \<and> Handle env (SDL_FINGERDOWN gx gy g) t1 = Inr (h2, s2)
       \<and> click_counts (calls_between t1 s2) = [n2]
      \<longrightarrow> n2 = (if 500 < lastTap s2 - lastTap s1 then 1 else 2)
        \<and> (\<exists>t. lastTap s1 = SDL_GetTicks env t) \<and> (\<exists>t. lastTap s2 = SDL_GetTicks env t))"
proof (rule conjI; rule impI; (elim conjE)?)
  assume "deliver env (SDL_FINGERDOWN fx fy f) p s = Inr (h, s')"
  then show "tap_turn env s s'" by (rule deliver_tap)
next
  assume a: "Handle env (SDL_FINGERDOWN fx fy f) s = Inr (h, s1)"
    and c1: "click_counts (calls_between s s1) = [n1]" and b: "lastTap t1 = lastTap s1"
    and a2: "Handle env (SDL_FINGERDOWN gx gy g) t1 = Inr (h2, s2)"
    and c2: "click_counts (calls_between t1 s2) = [n2]"
  from a obtain w where w: "walk env (SDL_FINGERDOWN fx fy f) (length (stack s)) s = Inr (h, w)"
    "s1 = PushOrPop w"
    by (auto simp: Handle_Inr)
  from a2 obtain w2 where w2: "walk env (SDL_FINGERDOWN gx gy g) (length (stack t1)) t1 = Inr (h2, w2)"
    "s2 = PushOrPop w2"
    by (auto simp: Handle_Inr)
  from walk_tap [OF w(1)] c1 w(2) have 1: "\<exists>t. lastTap s1 = SDL_GetTicks env t" by simp
  from walk_tap [OF w2(1)] c2 w2(2) b
  have 2: "n2 = (if 500 < lastTap s2 - lastTap s1 then 1 else 2)"
    "\<exists>t. lastTap s2 = SDL_GetTicks env t"
    by simp_all
  from 1 2 show "n2 = (if 500 < lastTap s2 - lastTap s1 then 1 else 2)
        \<and> (\<exists>t. lastTap s1 = SDL_GetTicks env t) \<and> (\<exists>t. lastTap s2 = SDL_GetTicks env t)"
    by blast
qed

theorem touch_down_click_count_witness:
  "Handle clock_panels (SDL_FINGERDOWN (1 / 2) (1 / 2) 3) (ui_empty\<lparr>stack := [1]\<rparr>)
   = Inr (False, ui_empty\<lparr>stack := [1], lastTap := 1000,
       trace := [Invocation 1 (ZoneMouseDown 0 0) False [1], Invocation 1 (Hover 0 0) False [1],
                 Invocation 1 (FingerDown 0 0 3) False [1], Invocation 1 (Click 0 0 1) False [1],
                 Invocation 1 TrapAllEvents False [1]]\<rparr>)
   \<and> Handle clock_panels (SDL_FINGERDOWN (1 / 2) (1 / 2) 3)
       (ui_empty\<lparr>stack := [1], lastTap := 1000,
       trace := [Invocation 1 (ZoneMouseDown 0 0) False [1], Invocation 1 (Hover 0 0) False [1],
                 Invocation 1 (FingerDown 0 0 3) False [1], Invocation 1 (Click 0 0 1) False [1],
                 Invocation 1 TrapAllEvents False [1]]\<rparr>)
   = Inr (False, ui_empty\<lparr>stack := [1], lastTap := 1500,
       trace := [Invocation 1 (ZoneMouseDown 0 0) False [1], Invocation 1 (Hover 0 0) False [1],
                 Invocation 1 (FingerDown 0 0 3) False [1], Invocation 1 (Click 0 0 1) False [1],
                 Invocation 1 TrapAllEvents False [1],
                 Invocation 1 (ZoneMouseDown 0 0) False [1], Invocation 1 (Hover 0 0) False [1],
                 Invocation 1 (FingerDown 0 0 3) False [1], Invocation 1 (Click 0 0 2) False [1],
                 Invocation 1 TrapAllEvents False [1]]\<rparr>)
   \<and> (2 :: int) = (if 500 < (1500 :: 32 word) - 1000 then 1 else 2)"
proof -
  let ?u = "ui_empty\<lparr>stack := [1]\<rparr>"
  let ?u1 = "ui_empty\<lparr>stack := [1], lastTap := 1000,
       trace := [Invocation 1 (ZoneMouseDown 0 0) False [1], Invocation 1 (Hover 0 0) False [1],
                 Invocation 1 (FingerDown 0 0 3) False [1], Invocation 1 (Click 0 0 1) False [1],
                 Invocation 1 TrapAllEvents False [1]]\<rparr>"
  let ?u2 = "ui_empty\<lparr>stack := [1], lastTap := 1500,
       trace := [Invocation 1 (ZoneMouseDown 0 0) False [1], Invocation 1 (Hover 0 0) False [1],
                 Invocation 1 (FingerDown 0 0 3) False [1], Invocation 1 (Click 0 0 1) False [1],
                 Invocation 1 TrapAllEvents False [1],
                 Invocation 1 (ZoneMouseDown 0 0) False [1], Invocation 1 (Hover 0 0) False [1],
                 Invocation 1 (FingerDown 0 0 3) False [1], Invocation 1 (Click 0 0 2) False [1],
                 Invocation 1 TrapAllEvents False [1]]\<rparr>"
  have H1: "Handle clock_panels (SDL_FINGERDOWN (1 / 2) (1 / 2) 3) ?u = Inr (False, ?u1)"
    by (simp add: Handle_def clock_panels_def quiet_def ui_empty_def and_then_def invoke_def
        trunc_def PushOrPop_def)
  have H2: "Handle clock_panels (SDL_FINGERDOWN (1 / 2) (1 / 2) 3) ?u1 = Inr (False, ?u2)"
    by (simp add: Handle_def clock_panels_def quiet_def ui_empty_def and_then_def invoke_def
        trunc_def PushOrPop_def)
  have c1: "click_counts (calls_between ?u ?u1) = [1]"
    by (simp add: calls_between_def ui_empty_def)
  have c2: "click_counts (calls_between ?u1 ?u2) = [2]"
    by (simp add: calls_between_def ui_empty_def)
  from touch_down_click_count [where env = clock_panels and fx = "1 / 2" and fy = "1 / 2"
      and f = 3 and s = ?u and h = False and ?s1.0 = ?u1 and ?n1.0 = 1 and ?t1.0 = ?u1
      and gx = "1 / 2" and gy = "1 / 2" and g = 3 and ?h2.0 = False and ?s2.0 = ?u2
      and ?n2.0 = 2] H1 H2 c1 c2
  have "(2 :: int) = (if 500 < lastTap ?u2 - lastTap ?u1 then 1 else 2)" by blast
  with H1 H2 show ?thesis by (simp add: ui_empty_def)
qed

text \<open>
  C5 as stated fails at exactly 500 ms. One panel that handles nothing receives two
  touch-downs, the first with the clock at 1000 and the second with the clock at 1500:
  the first click has count 1 and the second has count 2, although the two are spaced
  500 ms apart.
\<close>

theorem touch_down_at_500_counts_2:
  "map_sum id (\<lambda>(h, s). (click_counts (trace s), lastTap s))
     (and_then (Handle clock_panels (SDL_FINGERDOWN (1 / 2) (1 / 2) 3) (ui_empty\<lparr>stack := [1]\<rparr>))
        (\<lambda>(h, s). Handle clock_panels (SDL_FINGERDOWN (1 / 2) (1 / 2) 3) s))
   = Inr ([1, 2], 1500)"
  by (simp add: Handle_def clock_panels_def quiet_def ui_empty_def and_then_def invoke_def
      trunc_def PushOrPop_def)

subsection \<open>C6: the stack during a dispatch\<close>

text \<open>
  C6. A sequence of \<open>Push\<close>, \<open>Pop\<close> and \<open>PopThrough\<close> requests leaves the stack as
  it is. During a call of \<open>Handle\<close>, every call made on a panel sees the stack as it
  was when \<open>Handle\<close> was called; the stack after the walk is still that stack, and the
  state that \<open>Handle\<close> returns is the result of the apply step on the state after the
  walk, with both queues empty. \<open>StepAll\<close> runs the apply step first: every panel it
  steps is a panel of the stack after the apply step, and sees that stack.
\<close>

theorem Handle_defers_mutations:
  "(apply_requests rs s = Inr t \<longrightarrow> stack t = stack s)
   \<and> (Handle env e s = Inr (h, s') \<longrightarrow>
        (\<forall>i \<in> set (calls_between s s'). seen i = stack s)
        \<and> (\<exists>w. walk env e (length (stack s)) s = Inr (h, w) \<and> stack w = stack s
              \<and> s' = PushOrPop w)
        \<and> toPush s' = [] \<and> toPop s' = [])
   \<and> (StepAll env s = Inr s'' \<longrightarrow>
        stack s'' = stack (PushOrPop s)
        \<and> map target (calls_between s s'') = stack (PushOrPop s)
        \<and> (\<forall>i \<in> set (calls_between s s''). called i = Step \<and> seen i = stack (PushOrPop s)))"
proof (intro conjI impI)
  assume "apply_requests rs s = Inr t"
  from apply_requests_frame [OF this] show "stack t = stack s" by (simp add: frame_def)
next
  assume H: "Handle env e s = Inr (h, s')"
  then obtain w where w: "walk env e (length (stack s)) s = Inr (h, w)" "s' = PushOrPop w"
    by (auto simp: Handle_Inr)
  from walk_walked [OF w(1)] obtain new where n: "stack w = stack s" "trace w = trace s @ new"
    "\<forall>i \<in> set new. seen i = stack s"
    by (auto simp: walked_def)
  show "\<forall>i \<in> set (calls_between s s'). seen i = stack s"
    using n w(2) by (simp add: calls_between_append)
  show "\<exists>w. walk env e (length (stack s)) s = Inr (h, w) \<and> stack w = stack s \<and> s' = PushOrPop w"
    using w n(1) by auto
  show "toPush s' = []" "toPop s' = []" using w(2) by (simp_all add: PushOrPop_def)
next
  assume S: "StepAll env s = Inr s''"
  from StepAll_calls [OF S]
  show "stack s'' = stack (PushOrPop s)"
    "map target (calls_between s s'') = stack (PushOrPop s)"
    "\<forall>i \<in> set (calls_between s s''). called i = Step \<and> seen i = stack (PushOrPop s)"
    by simp_all
qed

theorem Handle_defers_mutations_witness:
  "apply_requests [ReqPop 2, ReqPush 4, ReqPopThrough 1] ui_three
     = Inr (ui_three\<lparr>toPush := [4], toPop := [2, 3, 2, 1], wired := [1, 2, 3, 4]\<rparr>)
   \<and> Handle busy_panels (SDL_MOUSEBUTTONDOWN 1 960 540 1) ui_three
     = Inr (False, ui_three\<lparr>stack := [1, 3, 4], wired := [1, 2, 3, 4],
         trace := [Invocation 3 (ZoneMouseDown 0 0) False [1, 2, 3],
                   Invocation 3 (Click 0 0 1) False [1, 2, 3],
                   Invocation 3 TrapAllEvents False [1, 2, 3],
                   Invocation 1 (ZoneMouseDown 0 0) False [1, 2, 3],
                   Invocation 1 (Click 0 0 1) False [1, 2, 3],
                   Invocation 1 TrapAllEvents False [1, 2, 3]]\<rparr>)
   \<and> StepAll busy_panels (ui_three\<lparr>toPush := [4], toPop := [2]\<rparr>)
     = Inr (ui_three\<lparr>stack := [1, 3, 4],
         trace := [Invocation 1 Step False [1, 3, 4], Invocation 3 Step False [1, 3, 4],
                   Invocation 4 Step False [1, 3, 4]]\<rparr>)
   \<and> map target (calls_between (ui_three\<lparr>toPush := [4], toPop := [2]\<rparr>)
       (ui_three\<lparr>stack := [1, 3, 4],
         trace := [Invocation 1 Step False [1, 3, 4], Invocation 3 Step False [1, 3, 4],
                   Invocation 4 Step False [1, 3, 4]]\<rparr>))
     = stack (PushOrPop (ui_three\<lparr>toPush := [4], toPop := [2]\<rparr>))
   \<and> set (map seen (calls_between ui_three (ui_three\<lparr>stack := [1, 3, 4], wired := [1, 2, 3, 4],
         trace := [Invocation 3 (ZoneMouseDown 0 0) False [1, 2, 3],
                   Invocation 3 (Click 0 0 1) False [1, 2, 3],
                   Invocation 3 TrapAllEvents False [1, 2, 3],
                   Invocation 1 (ZoneMouseDown 0 0) False [1, 2, 3],
                   Invocation 1 (Click 0 0 1) False [1, 2, 3],
                   Invocation 1 TrapAllEvents False [1, 2, 3]]\<rparr>))) \<subseteq> {[1, 2, 3]}"
proof -
  let ?h = "ui_three\<lparr>stack := [1, 3, 4], wired := [1, 2, 3, 4],
         trace := [Invocation 3 (ZoneMouseDown 0 0) False [1, 2, 3],
                   Invocation 3 (Click 0 0 1) False [1, 2, 3],
                   Invocation 3 TrapAllEvents False [1, 2, 3],
                   Invocation 1 (ZoneMouseDown 0 0) False [1, 2, 3],
                   Invocation 1 (Click 0 0 1) False [1, 2, 3],
                   Invocation 1 TrapAllEvents False [1, 2, 3]]\<rparr>"
  let ?q = "ui_three\<lparr>toPush := [4], toPop := [2, 3, 2, 1], wired := [1, 2, 3, 4]\<rparr>"
  let ?p = "ui_three\<lparr>toPush := [4], toPop := [2]\<rparr>"
  let ?t = "ui_three\<lparr>stack := [1, 3, 4],
         trace := [Invocation 1 Step False [1, 3, 4], Invocation 3 Step False [1, 3, 4],
                   Invocation 4 Step False [1, 3, 4]]\<rparr>"
  have R: "apply_requests [ReqPop 2, ReqPush 4, ReqPopThrough 1] ui_three = Inr ?q"
    by (simp add: ui_three_def ui_empty_def Push_def Pop_def PopThrough_def)
  have H: "Handle busy_panels (SDL_MOUSEBUTTONDOWN 1 960 540 1) ui_three = Inr (False, ?h)"
    by (simp add: Handle_def busy_panels_def quiet_def ui_three_def ui_empty_def and_then_def
        invoke_def PushOrPop_def Push_def Pop_def)
  have S: "StepAll busy_panels ?p = Inr ?t"
    by (simp add: StepAll_def busy_panels_def quiet_def ui_three_def ui_empty_def and_then_def
        invoke_def PushOrPop_def)
  from Handle_defers_mutations [of "[ReqPop 2, ReqPush 4, ReqPopThrough 1]" ui_three ?q
      busy_panels "SDL_MOUSEBUTTONDOWN 1 960 540 1" False ?h] R H
  have "\<forall>i \<in> set (calls_between ui_three ?h). seen i = stack ui_three" by blast
  then have "set (map seen (calls_between ui_three ?h)) \<subseteq> {[1, 2, 3]}"
    by (auto simp: ui_three_def)
  moreover from Handle_defers_mutations [where s = ?p and env = busy_panels and s'' = ?t] S
  have "map target (calls_between ?p ?t) = stack (PushOrPop ?p)" by blast
  ultimately show ?thesis using R H S by blast
qed

subsection \<open>C7: panels waiting to be popped\<close>




subsection \<open>C8: a panel that traps all events\<close>

text \<open>
  C8. During a call of \<open>Handle\<close>, a call of \<open>TrapAllEvents\<close> that returns true is the
  last call made on any panel: every call of \<open>TrapAllEvents\<close> before the last call of
  the run returned false. And when the walk reaches a panel that is not in the pop
  queue, hands it the event and the panel then answers that it traps all events, the
  walk ends there: \<open>Handle\<close> returns what that panel's turn left in \<open>handled\<close>, and
  the state after that turn with the queues applied.
\<close>

theorem Handle_stops_at_trap:
  "(Handle env e s = Inr (h, s') \<longrightarrow>
      (\<forall>i \<in> set (butlast (calls_between s s')). called i = TrapAllEvents \<longrightarrow> \<not> returned i))
   \<and> (reaches env e s (Suc it) s1 \<and> stack s1 ! it \<notin> set (toPop s1)
       \<and> deliver env e (stack s1 ! it) s1 = Inr (h1, s2)
       \<and> invoke env (stack s1 ! it) TrapAllEvents s2 = Inr (True, s3)
      \<longrightarrow> Handle env e s = Inr (h1, PushOrPop s3))"
proof (rule conjI; rule impI; (elim conjE)?)
  assume H: "Handle env e s = Inr (h, s')"
  then obtain w where w: "walk env e (length (stack s)) s = Inr (h, w)" "s' = PushOrPop w"
    by (auto simp: Handle_Inr)
  from walk_walked [OF w(1)] obtain new where "trace w = trace s @ new"
    "\<forall>i \<in> set (butlast new). called i = TrapAllEvents \<longrightarrow> \<not> returned i"
    by (auto simp: walked_def)
  then show "\<forall>i \<in> set (butlast (calls_between s s')). called i = TrapAllEvents \<longrightarrow> \<not> returned i"
    using w(2) by (simp add: calls_between_append)
next
  assume r: "reaches env e s (Suc it) s1" and n: "stack s1 ! it \<notin> set (toPop s1)"
    and d: "deliver env e (stack s1 ! it) s1 = Inr (h1, s2)"
    and t: "invoke env (stack s1 ! it) TrapAllEvents s2 = Inr (True, s3)"
  have "walk env e (Suc it) s1 = Inr (h1, s3)"
    using n d t by (simp add: count_list_0_iff and_then_def)
  with reaches_walk [OF r] show "Handle env e s = Inr (h1, PushOrPop s3)"
    by (simp add: Handle_def and_then_def)
qed

theorem Handle_stops_at_trap_witness:
  "Handle trap_panels (SDL_MOUSEWHEEL 0 1) ui_three
     = Inr (False, ui_three\<lparr>trace := [Invocation 3 (Scroll 0 1) False [1, 2, 3],
                                      Invocation 3 TrapAllEvents True [1, 2, 3]]\<rparr>)
   \<and> reaches trap_panels (SDL_MOUSEWHEEL 0 1) ui_three (Suc (Suc (Suc 0))) ui_three
   \<and> stack ui_three ! Suc (Suc 0) \<notin> set (toPop ui_three)
   \<and> deliver trap_panels (SDL_MOUSEWHEEL 0 1) (stack ui_three ! Suc (Suc 0)) ui_three
     = Inr (False, ui_three\<lparr>trace := [Invocation 3 (Scroll 0 1) False [1, 2, 3]]\<rparr>)
   \<and> invoke trap_panels (stack ui_three ! Suc (Suc 0)) TrapAllEvents
       (ui_three\<lparr>trace := [Invocation 3 (Scroll 0 1) False [1, 2, 3]]\<rparr>)
     = Inr (True, ui_three\<lparr>trace := [Invocation 3 (Scroll 0 1) False [1, 2, 3],
                                     Invocation 3 TrapAllEvents True [1, 2, 3]]\<rparr>)
   \<and> filter (\<lambda>i. called i = TrapAllEvents \<and> returned i)
       (butlast (calls_between ui_three
         (ui_three\<lparr>trace := [Invocation 3 (Scroll 0 1) False [1, 2, 3],
                               Invocation 3 TrapAllEvents True [1, 2, 3]]\<rparr>))) = []"
proof -
  let ?e = "SDL_MOUSEWHEEL 0 1"
  let ?d = "ui_three\<lparr>trace := [Invocation 3 (Scroll 0 1) False [1, 2, 3]]\<rparr>"
  let ?t = "ui_three\<lparr>trace := [Invocation 3 (Scroll 0 1) False [1, 2, 3],
                                 Invocation 3 TrapAllEvents True [1, 2, 3]]\<rparr>"
  have top: "reaches trap_panels ?e ui_three (Suc (Suc (Suc 0))) ui_three"
    using reaches.start [of trap_panels ?e ui_three] by (simp add: ui_three_def ui_empty_def)
  have n: "stack ui_three ! Suc (Suc 0) \<notin> set (toPop ui_three)"
    by (simp add: ui_three_def ui_empty_def)
  have d: "deliver trap_panels ?e (stack ui_three ! Suc (Suc 0)) ui_three = Inr (False, ?d)"
    by (simp add: trap_panels_def quiet_def ui_three_def ui_empty_def invoke_def)
  have t: "invoke trap_panels (stack ui_three ! Suc (Suc 0)) TrapAllEvents ?d = Inr (True, ?t)"
    by (simp add: trap_panels_def quiet_def ui_three_def ui_empty_def invoke_def)
  have p: "PushOrPop ?t = ?t" by (simp add: PushOrPop_def ui_three_def ui_empty_def)
  from Handle_stops_at_trap [of trap_panels ?e ui_three _ _ "Suc (Suc 0)" ui_three False ?d ?t]
    top n d t
  have H: "Handle trap_panels ?e ui_three = Inr (False, ?t)" unfolding p by blast
  with Handle_stops_at_trap [of trap_panels ?e ui_three False ?t]
  have "\<forall>i \<in> set (butlast (calls_between ui_three ?t)). called i = TrapAllEvents \<longrightarrow> \<not> returned i"
    by blast
  then have "filter (\<lambda>i. called i = TrapAllEvents \<and> returned i)
      (butlast (calls_between ui_three ?t)) = []"
    by (auto simp: filter_empty_conv)
  with H top n d t show ?thesis by blast
qed

subsection \<open>C9: the draw pass\<close>

text \<open>
  C9. The calls that \<open>DrawAll\<close> makes are, in this order: \<open>ClearZones\<close> on every panel
  of the stack from the bottom to the top; \<open>IsFullScreen\<close> on the panels from the top
  down to a position \<open>k\<close>, each of which answers false except possibly the last one
  asked, the panel at \<open>k\<close>; \<open>Draw\<close> on the panels from position \<open>k\<close> to the top, from
  the lower to the higher, and on no other. Either \<open>k\<close> is the bottom of the stack (so
  every panel is drawn, which is the case when no panel is full-screen), or the panel
  at \<open>k\<close> answered that it is full-screen.
\<close>

theorem DrawAll_from_full_screen:
  "DrawAll env s = Inr s' \<longrightarrow>
     (\<exists>k cl fs dr. calls_between s s' = cl @ fs @ dr
        \<and> map target cl = stack s \<and> (\<forall>i \<in> set cl. called i = ClearZones)
        \<and> k \<le> length (stack s)
        \<and> map target fs = rev (drop k (stack s)) \<and> (\<forall>i \<in> set fs. called i = IsFullScreen)
        \<and> (\<forall>i \<in> set (butlast fs). \<not> returned i)
        \<and> (k = 0 \<or> fs \<noteq> [] \<and> returned (last fs))
        \<and> map target dr = drop k (stack s) \<and> (\<forall>i \<in> set dr. called i = Draw))"
proof
  assume "DrawAll env s = Inr s'"
  then obtain s1 k s2 where 1: "invoke_each env ClearZones (stack s) s = Inr s1"
    and 2: "find_full_screen env (length (stack s1)) s1 = Inr (k, s2)"
    and 3: "invoke_each env Draw (drop k (stack s2)) s2 = Inr s'"
    by (auto simp: DrawAll_def and_then_Inr)
  from invoke_each_calls [OF 1] obtain cl where c: "stack s1 = stack s"
    "trace s1 = trace s @ cl" "map target cl = stack s" "\<forall>i \<in> set cl. called i = ClearZones"
    by auto
  from find_full_screen_calls [OF 2] obtain fs where f: "k \<le> length (stack s1)"
    "stack s2 = stack s1" "trace s2 = trace s1 @ fs" "map target fs = rev (drop k (stack s1))"
    "\<forall>i \<in> set fs. called i = IsFullScreen" "\<forall>i \<in> set (butlast fs). \<not> returned i"
    "k = 0 \<or> fs \<noteq> [] \<and> returned (last fs)"
    by auto
  from invoke_each_calls [OF 3] obtain dr where d: "trace s' = trace s2 @ dr"
    "map target dr = drop k (stack s2)" "\<forall>i \<in> set dr. called i = Draw"
    by auto
  have cb: "calls_between s s' = cl @ fs @ dr"
    using c(2) f(3) d(1) by (simp add: calls_between_def)
  have k: "k \<le> length (stack s)" using f(1) c(1) by simp
  have mf: "map target fs = rev (drop k (stack s))" using f(4) c(1) by simp
  have md: "map target dr = drop k (stack s)" using d(2) f(2) c(1) by simp
  show "\<exists>k cl fs dr. calls_between s s' = cl @ fs @ dr
        \<and> map target cl = stack s \<and> (\<forall>i \<in> set cl. called i = ClearZones)
        \<and> k \<le> length (stack s)
        \<and> map target fs = rev (drop k (stack s)) \<and> (\<forall>i \<in> set fs. called i = IsFullScreen)
        \<and> (\<forall>i \<in> set (butlast fs). \<not> returned i)
        \<and> (k = 0 \<or> fs \<noteq> [] \<and> returned (last fs))
        \<and> map target dr = drop k (stack s) \<and> (\<forall>i \<in> set dr. called i = Draw)"
    by (rule exI [of _ k], rule exI [of _ cl], rule exI [of _ fs], rule exI [of _ dr])
      (intro conjI cb c(3) c(4) k mf f(5) f(6) f(7) md d(3))
qed

theorem DrawAll_from_full_screen_witness:
  "DrawAll full_panels ui_three
     = Inr (ui_three\<lparr>trace := [Invocation 1 ClearZones False [1, 2, 3],
                               Invocation 2 ClearZones False [1, 2, 3],
                               Invocation 3 ClearZones False [1, 2, 3],
                               Invocation 3 IsFullScreen False [1, 2, 3],
                               Invocation 2 IsFullScreen True [1, 2, 3],
                               Invocation 2 Draw False [1, 2, 3],
                               Invocation 3 Draw False [1, 2, 3]]\<rparr>)
   \<and> (\<exists>k cl fs dr.
        calls_between ui_three
          (ui_three\<lparr>trace := [Invocation 1 ClearZones False [1, 2, 3],
                               Invocation 2 ClearZones False [1, 2, 3],
                               Invocation 3 ClearZones False [1, 2, 3],
                               Invocation 3 IsFullScreen False [1, 2, 3],
                               Invocation 2 IsFullScreen True [1, 2, 3],
                               Invocation 2 Draw False [1, 2, 3],
                               Invocation 3 Draw False [1, 2, 3]]\<rparr>) = cl @ fs @ dr
        \<and> map target cl = stack ui_three \<and> (\<forall>i \<in> set cl. called i = ClearZones)
        \<and> k \<le> length (stack ui_three)
        \<and> map target fs = rev (drop k (stack ui_three))
        \<and> (\<forall>i \<in> set fs. called i = IsFullScreen)
        \<and> (\<forall>i \<in> set (butlast fs). \<not> returned i)
        \<and> (k = 0 \<or> fs \<noteq> [] \<and> returned (last fs))
        \<and> map target dr = drop k (stack ui_three) \<and> (\<forall>i \<in> set dr. called i = Draw))"
proof -
  let ?d = "ui_three\<lparr>trace := [Invocation 1 ClearZones False [1, 2, 3],
                               Invocation 2 ClearZones False [1, 2, 3],
                               Invocation 3 ClearZones False [1, 2, 3],
                               Invocation 3 IsFullScreen False [1, 2, 3],
                               Invocation 2 IsFullScreen True [1, 2, 3],
                               Invocation 2 Draw False [1, 2, 3],
                               Invocation 3 Draw False [1, 2, 3]]\<rparr>"
  have D: "DrawAll full_panels ui_three = Inr ?d"
    by (simp add: DrawAll_def full_panels_def quiet_def ui_three_def ui_empty_def and_then_def
        invoke_def)
  from DrawAll_from_full_screen [of full_panels ui_three ?d] D show ?thesis by blast
qed

subsection \<open>C10: Push and SetUI\<close>

text \<open>
  C10. \<open>Push\<close> of a non-null handle calls \<open>SetUI\<close> on the panel and appends the handle
  to the push queue, leaving the stack as it is; \<open>Push\<close> of a null handle is a call
  through a null pointer. The apply step puts no null handle of the push queue into the
  stack. If every panel in the stack or in the push queue has had \<open>SetUI\<close> called, then
  this is still so after \<open>Push\<close>, after the apply step and after a call of \<open>Handle\<close>,
  and every panel on which \<open>Handle\<close> calls a member function had \<open>SetUI\<close> called
  before that call of \<open>Handle\<close> began.
\<close>

theorem Push_wires_panel:
  "(panel \<noteq> 0 \<longrightarrow>
      Push panel s = Inr (s\<lparr>wired := wired s @ [panel], toPush := toPush s @ [panel]\<rparr>))
   \<and> Push 0 s = Inl NullDereference
   \<and> set (stack (PushOrPop s)) \<subseteq> set (stack s) \<union> (set (toPush s) - {0})
   \<and> (wired_inv s \<and> Push panel s = Inr t \<longrightarrow> wired_inv t)
   \<and> (wired_inv s \<longrightarrow> wired_inv (PushOrPop s))
   \<and> (wired_inv s \<and> Handle env e s = Inr (h, s')
      \<longrightarrow> wired_inv s' \<and> (\<forall>i \<in> set (calls_between s s'). target i \<in> set (wired s)))"
proof (intro conjI impI; (elim conjE)?)
  show "Push 0 s = Inl NullDereference" by (simp add: Push_def)
  show "set (stack (PushOrPop s)) \<subseteq> set (stack s) \<union> (set (toPush s) - {0})"
    by (rule set_stack_PushOrPop)
next
  assume "panel \<noteq> 0"
  then show "Push panel s = Inr (s\<lparr>wired := wired s @ [panel], toPush := toPush s @ [panel]\<rparr>)"
    by (simp add: Push_def)
next
  assume "wired_inv s" "Push panel s = Inr t"
  then show "wired_inv t" by (rule wired_inv_Push)
next
  assume "wired_inv s"
  then show "wired_inv (PushOrPop s)" by (rule wired_inv_PushOrPop)
next
  assume inv: "wired_inv s" and H: "Handle env e s = Inr (h, s')"
  from H obtain w where w: "walk env e (length (stack s)) s = Inr (h, w)" "s' = PushOrPop w"
    by (auto simp: Handle_Inr)
  from walk_walked [OF w(1)] inv obtain new where n: "wired_inv w" "trace w = trace s @ new"
    "\<forall>i \<in> set new. target i \<in> set (stack s) \<and> target i \<noteq> 0"
    by (auto simp: walked_def)
  show "wired_inv s'" using n(1) w(2) by (simp add: wired_inv_PushOrPop)
  show "\<forall>i \<in> set (calls_between s s'). target i \<in> set (wired s)"
    using n(2,3) inv w(2) by (auto simp: calls_between_append wired_inv_def)
qed

theorem Push_wires_panel_witness:
  "(4 :: nat) \<noteq> 0
   \<and> Push 4 ui_three = Inr (ui_three\<lparr>wired := [1, 2, 3, 4], toPush := [4]\<rparr>)
   \<and> wired_inv ui_three
   \<and> wired_inv (PushOrPop (ui_three\<lparr>wired := [1, 2, 3, 4], toPush := [4]\<rparr>))
   \<and> Handle busy_panels (SDL_MOUSEBUTTONDOWN 1 960 540 1) ui_three
     = Inr (False, ui_three\<lparr>stack := [1, 3, 4], wired := [1, 2, 3, 4],
         trace := [Invocation 3 (ZoneMouseDown 0 0) False [1, 2, 3],
                   Invocation 3 (Click 0 0 1) False [1, 2, 3],
                   Invocation 3 TrapAllEvents False [1, 2, 3],
                   Invocation 1 (ZoneMouseDown 0 0) False [1, 2, 3],
                   Invocation 1 (Click 0 0 1) False [1, 2, 3],
                   Invocation 1 TrapAllEvents False [1, 2, 3]]\<rparr>)
   \<and> wired_inv (ui_three\<lparr>stack := [1, 3, 4], wired := [1, 2, 3, 4],
         trace := [Invocation 3 (ZoneMouseDown 0 0) False [1, 2, 3],
                   Invocation 3 (Click 0 0 1) False [1, 2, 3],
                   Invocation 3 TrapAllEvents False [1, 2, 3],
                   Invocation 1 (ZoneMouseDown 0 0) False [1, 2, 3],
                   Invocation 1 (Click 0 0 1) False [1, 2, 3],
                   Invocation 1 TrapAllEvents False [1, 2, 3]]\<rparr>)"
proof -
  let ?h = "ui_three\<lparr>stack := [1, 3, 4], wired := [1, 2, 3, 4],
         trace := [Invocation 3 (ZoneMouseDown 0 0) False [1, 2, 3],
                   Invocation 3 (Click 0 0 1) False [1, 2, 3],
                   Invocation 3 TrapAllEvents False [1, 2, 3],
                   Invocation 1 (ZoneMouseDown 0 0) False [1, 2, 3],
                   Invocation 1 (Click 0 0 1) False [1, 2, 3],
                   Invocation 1 TrapAllEvents False [1, 2, 3]]\<rparr>"
  let ?q = "ui_three\<lparr>wired := [1, 2, 3, 4], toPush := [4]\<rparr>"
  have inv: "wired_inv ui_three" by (simp add: wired_inv_def ui_three_def ui_empty_def)
  have invq: "wired_inv ?q" by (simp add: wired_inv_def ui_three_def ui_empty_def)
  have H: "Handle busy_panels (SDL_MOUSEBUTTONDOWN 1 960 540 1) ui_three = Inr (False, ?h)"
    by (simp add: Handle_def busy_panels_def quiet_def ui_three_def ui_empty_def and_then_def
        invoke_def PushOrPop_def Push_def Pop_def)
  from Push_wires_panel [of 4 ui_three ?q busy_panels "SDL_MOUSEBUTTONDOWN 1 960 540 1" False ?h]
    inv H
  have 1: "Push 4 ui_three = Inr ?q" "wired_inv ?h"
    by (simp_all add: ui_three_def ui_empty_def)
  from Push_wires_panel [of 4 ?q] invq have 2: "wired_inv (PushOrPop ?q)" by blast
  from 1 2 inv H show ?thesis by simp
qed

end
